theory Spec2Isabelle
  imports Main "HOL-Library.Word" "HOL-Library.Sublist" "HOL-Library.Multiset"
begin

unbundle bit_operations_syntax

section \<open>Data model of huffman\_compression.h and huffman\_compression.cpp\<close>

text \<open>
  A \<^verbatim>\<open>std::string\<close> is a sequence of bytes; the characters the program names are
  \<^verbatim>\<open>'0'\<close> = 48, \<^verbatim>\<open>'1'\<close> = 49 and \<^verbatim>\<open>'+'\<close> = 43. A file is the list of its bytes.
\<close>

type_synonym byte = "8 word"

type_synonym cstring = "byte list"

text \<open>
  \<^verbatim>\<open>class Node\<close>: the fields \<^verbatim>\<open>left\<close> and \<^verbatim>\<open>right\<close> are
  \<^verbatim>\<open>std::shared_ptr<Node>\<close>, \<open>None\<close> being the null pointer. \<^verbatim>\<open>frequency\<close> is a
  32-bit \<^verbatim>\<open>int\<close>: it is kept as an integer, and the one addition the program makes on it
  is checked for overflow (\<open>add_int\<close>).
\<close>

datatype node =
  Node (character: byte) (frequency: int) (left: "node option") (right: "node option")

text \<open>
  The ways the program leaves defined behaviour. None of them is reported by the program
  itself: each is undefined behaviour or an uncaught exception of the C++ run time.
\<close>

datatype error =
    EmptyQueue          \<comment> \<open>\<^verbatim>\<open>pq.top()\<close> or \<^verbatim>\<open>pq.pop()\<close> on an empty priority queue\<close>
  | SignedOverflow      \<comment> \<open>overflow of an \<^verbatim>\<open>int\<close> addition\<close>
  | NullDereference     \<comment> \<open>\<^verbatim>\<open>current->left\<close> with \<^verbatim>\<open>current\<close> null\<close>
  | UninitializedRead   \<comment> \<open>use of a \<^verbatim>\<open>char\<close> that a failed \<^verbatim>\<open>read\<close> never stored\<close>
  | LengthError         \<comment> \<open>\<^verbatim>\<open>std::length_error\<close> thrown by \<^verbatim>\<open>code.resize\<close>, never caught\<close>
  | NegativeCount       \<comment> \<open>\<^verbatim>\<open>outfile.write\<close> called with a negative count\<close>

text \<open>
  Whether plain \<^verbatim>\<open>char\<close> is signed is the platform's choice (signed on x86, unsigned on
  ARM Linux); every function that converts a \<^verbatim>\<open>char\<close> to a wider integer takes the choice
  as its first argument \<open>signed_char\<close>.
\<close>

definition char_value :: "bool \<Rightarrow> byte \<Rightarrow> int" where
  "char_value signed_char b = (if signed_char then sint b else uint b)"

definition add_int :: "int \<Rightarrow> int \<Rightarrow> error + int" where
  "add_int a b =
     (if - (2 ^ 31) \<le> a + b \<and> a + b < 2 ^ 31 then Inr (a + b) else Inl SignedOverflow)"

section \<open>Frequency table\<close>

text \<open>
  \<^verbatim>\<open>std::array<unsigned int, NUM_CHAR>\<close>, indexed by a byte: a function from bytes to
  32-bit words, whose \<open>+\<close> wraps as \<^verbatim>\<open>frequency[ch]++\<close> does.
\<close>

definition init_frequency :: "(byte \<Rightarrow> 32 word) \<Rightarrow> (byte \<Rightarrow> 32 word)" where
  "init_frequency table = (\<lambda>i. 0)"

fun fill_frequency :: "cstring \<Rightarrow> (byte \<Rightarrow> 32 word) \<Rightarrow> (byte \<Rightarrow> 32 word)" where
  "fill_frequency [] table = table"
| "fill_frequency (ch # text) table = fill_frequency text (table(ch := table ch + 1))"

section \<open>The priority queue\<close>

text \<open>
  \<^verbatim>\<open>std::priority_queue<.., Node::Compare>\<close> belongs to the C++ library, not to the
  repository. With \<^verbatim>\<open>Compare\<close> being \<^verbatim>\<open>l->frequency > r->frequency\<close>, \<^verbatim>\<open>top()\<close> is
  an element of least frequency; which one among several of the same frequency is the
  container's business. The queue is the list of its elements in insertion order, and
  the container's decision is a parameter: a function that gives, for every non-empty
  queue, the position of the element that \<^verbatim>\<open>top()\<close> returns and \<^verbatim>\<open>pop()\<close> removes.
\<close>

definition least_choice :: "(node list \<Rightarrow> nat) \<Rightarrow> bool" where
  "least_choice sel \<longleftrightarrow>
     (\<forall>q. q \<noteq> [] \<longrightarrow> sel q < length q \<and> (\<forall>n \<in> set q. frequency (q ! sel q) \<le> frequency n))"

fun first_least :: "node list \<Rightarrow> nat" where
  "first_least [] = 0"
| "first_least [n] = 0"
| "first_least (n # ns) =
     (let i = first_least ns in if frequency n \<le> frequency (ns ! i) then 0 else Suc i)"

lemma first_least_bound: "q \<noteq> [] \<Longrightarrow> first_least q < length q"
  by (induction q rule: first_least.induct) (simp_all add: Let_def)

lemma first_least_min:
  "n \<in> set q \<Longrightarrow> frequency (q ! first_least q) \<le> frequency n"
proof (induction q arbitrary: n rule: first_least.induct)
  case 1
  then show ?case by simp
next
  case (2 m)
  then show ?case by simp
next
  case (3 m k ks)
  let ?i = "first_least (k # ks)"
  show ?case
  proof (cases "frequency m \<le> frequency ((k # ks) ! ?i)")
    case True
    have "frequency m \<le> frequency n"
    proof (cases "n = m")
      case False
      with "3.prems" have "n \<in> set (k # ks)" by simp
      from "3.IH" [OF this] True show ?thesis by linarith
    qed simp
    with True show ?thesis by simp
  next
    case False
    have "frequency ((k # ks) ! ?i) \<le> frequency n"
    proof (cases "n = m")
      case True
      with False show ?thesis by simp
    next
      case False
      with "3.prems" have "n \<in> set (k # ks)" by simp
      from "3.IH" [OF this] show ?thesis .
    qed
    with False show ?thesis by simp
  qed
qed

lemma least_choice_first_least: "least_choice first_least"
  unfolding least_choice_def using first_least_bound first_least_min by blast

typedef top_choice = "{sel. least_choice sel}"
  using least_choice_first_least by blast

definition chosen :: "top_choice \<Rightarrow> node list \<Rightarrow> nat" where
  "chosen tc = Rep_top_choice tc"

definition first_least_choice :: top_choice where
  "first_least_choice = Abs_top_choice first_least"

lemma chosen_first_least_choice: "chosen first_least_choice = first_least"
  by (simp add: chosen_def first_least_choice_def Abs_top_choice_inverse
      least_choice_first_least)

definition pq_push :: "node \<Rightarrow> node list \<Rightarrow> node list" where
  "pq_push n q = q @ [n]"

definition pq_top :: "top_choice \<Rightarrow> node list \<Rightarrow> error + node" where
  "pq_top tc q = (if q = [] then Inl EmptyQueue else Inr (q ! chosen tc q))"

definition pq_pop :: "top_choice \<Rightarrow> node list \<Rightarrow> error + node list" where
  "pq_pop tc q =
     (if q = [] then Inl EmptyQueue
      else Inr (take (chosen tc q) q @ drop (Suc (chosen tc q)) q))"

lemma chosen_bound: "q \<noteq> [] \<Longrightarrow> chosen tc q < length q"
  using Rep_top_choice [of tc] by (simp add: least_choice_def chosen_def)

lemma chosen_least: "n \<in> set q \<Longrightarrow> frequency (q ! chosen tc q) \<le> frequency n"
proof -
  assume n: "n \<in> set q"
  then have "q \<noteq> []" by auto
  with Rep_top_choice [of tc] n show ?thesis
    unfolding least_choice_def chosen_def by blast
qed

lemma length_pq_pop: "pq_pop tc q = Inr q' \<Longrightarrow> Suc (length q') = length q"
  using chosen_bound [of q tc] by (auto simp: pq_pop_def split: if_splits)

section \<open>Tree builder\<close>

text \<open>The \<^verbatim>\<open>while (pq.size() > 1)\<close> loop of \<^verbatim>\<open>build_huffman_tree\<close>.\<close>

function merge_loop :: "top_choice \<Rightarrow> node list \<Rightarrow> error + node list" where
  "merge_loop tc pq =
     (if length pq > 1 then
        (case pq_top tc pq of Inl e \<Rightarrow> Inl e | Inr left_node \<Rightarrow>
        (case pq_pop tc pq of Inl e \<Rightarrow> Inl e | Inr pq1 \<Rightarrow>
        (case pq_top tc pq1 of Inl e \<Rightarrow> Inl e | Inr right_node \<Rightarrow>
        (case pq_pop tc pq1 of Inl e \<Rightarrow> Inl e | Inr pq2 \<Rightarrow>
        (case add_int (frequency left_node) (frequency right_node) of Inl e \<Rightarrow> Inl e
         | Inr s \<Rightarrow>
             merge_loop tc (pq_push (Node 43 s (Some left_node) (Some right_node)) pq2))))))
      else Inr pq)"
  by pat_completeness auto
termination
proof (relation "measure (\<lambda>(tc, pq). length pq)")
  show "wf (measure (\<lambda>(tc, pq). length pq))" by simp
next
  fix tc pq left_node pq1 right_node pq2 s
  assume "pq_pop tc pq = Inr pq1" "pq_pop tc pq1 = Inr pq2"
  then have "Suc (length pq1) = length pq" "Suc (length pq2) = length pq1"
    by (simp_all add: length_pq_pop)
  then show "((tc, pq_push (Node 43 s (Some left_node) (Some right_node)) pq2), (tc, pq))
      \<in> measure (\<lambda>(tc, pq). length pq)"
    by (simp add: pq_push_def)
qed

declare merge_loop.simps [simp del]

text \<open>
  The \<^verbatim>\<open>for\<close> loop that pushes one leaf for every byte value of non-zero frequency, in
  increasing order of the byte value; \<^verbatim>\<open>Node(i, frequency[i])\<close> converts the
  \<^verbatim>\<open>unsigned int\<close> to \<^verbatim>\<open>int\<close>.
\<close>

definition push_leaves :: "(byte \<Rightarrow> 32 word) \<Rightarrow> nat list \<Rightarrow> node list \<Rightarrow> node list" where
  "push_leaves table is pq =
     foldl (\<lambda>pq i. if 0 < table (of_nat i)
                    then pq_push (Node (of_nat i) (sint (table (of_nat i))) None None) pq
                    else pq) pq is"

definition build_huffman_tree :: "top_choice \<Rightarrow> (byte \<Rightarrow> 32 word) \<Rightarrow> error + node" where
  "build_huffman_tree tc table =
     (case merge_loop tc (push_leaves table [0..<256] []) of
        Inl e \<Rightarrow> Inl e
      | Inr pq \<Rightarrow> pq_top tc pq)"

section \<open>Code generator and encoder\<close>

fun generate_dictionary :: "node \<Rightarrow> cstring \<Rightarrow> (byte \<Rightarrow> cstring) \<Rightarrow> (byte \<Rightarrow> cstring)" where
  "generate_dictionary (Node c f l r) code dict =
     (if l = None \<and> r = None then dict(c := code)
      else
        (let dict1 = (case l of None \<Rightarrow> dict
                      | Some a \<Rightarrow> generate_dictionary a (code @ [48]) dict)
         in (case r of None \<Rightarrow> dict1
             | Some b \<Rightarrow> generate_dictionary b (code @ [49]) dict1)))"

definition encode_text :: "cstring \<Rightarrow> (byte \<Rightarrow> cstring) \<Rightarrow> cstring" where
  "encode_text text dict = foldl (\<lambda>encoded ch. encoded @ dict ch) [] text"

section \<open>Writer\<close>

text \<open>
  One dictionary entry: the symbol, \<^verbatim>\<open>static_cast<char>(dict[i].length())\<close>, and
  \<^verbatim>\<open>outfile.write(dict[i].c_str(), length)\<close>, whose count is the \<^verbatim>\<open>char\<close> converted to
  \<^verbatim>\<open>std::streamsize\<close>.
\<close>

definition write_entry :: "bool \<Rightarrow> byte \<Rightarrow> cstring \<Rightarrow> error + byte list" where
  "write_entry signed_char c code =
     (let len = (of_nat (length code) :: byte) in
      if char_value signed_char len < 0 then Inl NegativeCount
      else Inr ([c, len] @ take (nat (char_value signed_char len)) code))"

fun write_entries :: "bool \<Rightarrow> (byte \<Rightarrow> cstring) \<Rightarrow> nat list \<Rightarrow> error + byte list" where
  "write_entries signed_char dict [] = Inr []"
| "write_entries signed_char dict (i # is) =
     (if dict (of_nat i) \<noteq> [] then
        (case write_entry signed_char (of_nat i) (dict (of_nat i)) of
           Inl e \<Rightarrow> Inl e
         | Inr entry \<Rightarrow>
             (case write_entries signed_char dict is of
                Inl e \<Rightarrow> Inl e
              | Inr rest \<Rightarrow> Inr (entry @ rest)))
      else write_entries signed_char dict is)"

text \<open>
  The bit packing loop: \<open>buffer\<close> and \<open>bit_pos\<close> are the loop's variables, a full byte is
  written when \<open>bit_pos\<close> reaches 8, and the bits left over are written at the end.
\<close>

fun pack_bits :: "cstring \<Rightarrow> byte \<Rightarrow> nat \<Rightarrow> byte list" where
  "pack_bits [] buffer bit_pos = (if bit_pos > 0 then [buffer] else [])"
| "pack_bits (b # encoded_text) buffer bit_pos =
     (let buffer1 = (if b = 49 then buffer OR push_bit (7 - bit_pos) 1 else buffer) in
      if Suc bit_pos = 8 then buffer1 # pack_bits encoded_text 0 0
      else pack_bits encoded_text buffer1 (Suc bit_pos))"

definition dict_size_byte :: "(byte \<Rightarrow> cstring) \<Rightarrow> byte" where
  "dict_size_byte dict = of_nat (length (filter (\<lambda>i. dict (of_nat i) \<noteq> []) [0..<256]))"

definition write_compressed_file ::
  "bool \<Rightarrow> (byte \<Rightarrow> cstring) \<Rightarrow> cstring \<Rightarrow> error + byte list" where
  "write_compressed_file signed_char dict encoded_text =
     (case write_entries signed_char dict [0..<256] of
        Inl e \<Rightarrow> Inl e
      | Inr entries \<Rightarrow> Inr (dict_size_byte dict # entries @ pack_bits encoded_text 0 0))"

definition compress_file :: "top_choice \<Rightarrow> bool \<Rightarrow> cstring \<Rightarrow> error + byte list" where
  "compress_file tc signed_char dataset =
     (let table = fill_frequency dataset (init_frequency (\<lambda>i. 0)) in
      case build_huffman_tree tc table of
        Inl e \<Rightarrow> Inl e
      | Inr huffman_tree \<Rightarrow>
          (let dict = generate_dictionary huffman_tree [] (\<lambda>i. []);
               encoded_text = encode_text dataset dict
           in write_compressed_file signed_char dict encoded_text))"

section \<open>Input stream\<close>

text \<open>
  \<^verbatim>\<open>std::ifstream\<close> opened in binary mode: the bytes of the file, the read position and
  the \<^verbatim>\<open>failbit\<close>. The program only reads with \<^verbatim>\<open>read\<close>, which sets \<^verbatim>\<open>eofbit\<close> and
  \<^verbatim>\<open>failbit\<close> together, so one flag is enough: once it is set, every \<^verbatim>\<open>read\<close> and
  \<^verbatim>\<open>seekg\<close> does nothing and \<^verbatim>\<open>tellg\<close> returns -1.
\<close>

record ifstream =
  content :: "byte list"
  pos :: nat
  failbit :: bool

definition open_file :: "byte list \<Rightarrow> ifstream" where
  "open_file file = \<lparr>content = file, pos = 0, failbit = False\<rparr>"

text \<open>\<^verbatim>\<open>infile.read(&c, sizeof(char))\<close>: \<open>None\<close> when nothing was stored in \<^verbatim>\<open>c\<close>.\<close>

definition read_char :: "ifstream \<Rightarrow> byte option \<times> ifstream" where
  "read_char s =
     (if failbit s \<or> length (content s) \<le> pos s then (None, s\<lparr>failbit := True\<rparr>)
      else (Some (content s ! pos s), s\<lparr>pos := Suc (pos s)\<rparr>))"

text \<open>
  \<^verbatim>\<open>code.resize(n); infile.read(&code[0], n)\<close>: the string is \<open>n\<close> zero bytes, over which
  the bytes that the file still has are stored; fewer than \<open>n\<close> of them set the
  \<^verbatim>\<open>failbit\<close>.
\<close>

definition read_string :: "nat \<Rightarrow> ifstream \<Rightarrow> cstring \<times> ifstream" where
  "read_string n s =
     (if failbit s then (replicate n 0, s)
      else
        (let got = take n (drop (pos s) (content s)) in
         (got @ replicate (n - length got) 0,
          s\<lparr>pos := pos s + length got, failbit := length got < n\<rparr>)))"

definition seekg_end :: "ifstream \<Rightarrow> ifstream" where
  "seekg_end s = (if failbit s then s else s\<lparr>pos := length (content s)\<rparr>)"

definition tellg :: "ifstream \<Rightarrow> int" where
  "tellg s = (if failbit s then - 1 else int (pos s))"

text \<open>\<^verbatim>\<open>infile.seekg(-1, std::ios::cur)\<close>: seeking before the start of the file fails.\<close>

definition seekg_back :: "ifstream \<Rightarrow> ifstream" where
  "seekg_back s =
     (if failbit s then s
      else if pos s = 0 then s\<lparr>failbit := True\<rparr>
      else s\<lparr>pos := pos s - 1\<rparr>)"

section \<open>Dictionary reader\<close>

text \<open>
  The inner loop of \<^verbatim>\<open>read_huffman_dictionary\<close> and the assignment after it: \<open>current\<close>
  walks down from the root along \<open>code\<close>, creating the nodes that are missing, and the
  node where the code ends takes the character. The nodes are reached through the
  root only, so the walk that changes them in place is the function that rebuilds the
  path.
\<close>

fun insert_code :: "cstring \<Rightarrow> byte \<Rightarrow> node \<Rightarrow> node" where
  "insert_code [] ch (Node c f l r) = Node ch f l r"
| "insert_code (b # code) ch (Node c f l r) =
     (if b = 48 then
        Node c f (Some (insert_code code ch
                    (case l of None \<Rightarrow> Node 43 0 None None | Some a \<Rightarrow> a))) r
      else
        Node c f l (Some (insert_code code ch
                    (case r of None \<Rightarrow> Node 43 0 None None | Some a \<Rightarrow> a))))"

text \<open>
  One turn of the outer loop. \<^verbatim>\<open>character\<close> and \<^verbatim>\<open>code_length\<close> are declared without a
  value in the loop body, so a \<^verbatim>\<open>read\<close> that fails leaves them indeterminate.
  \<^verbatim>\<open>code.resize(code_length)\<close> converts the \<^verbatim>\<open>char\<close> to \<^verbatim>\<open>size_t\<close>: a negative one is
  beyond \<^verbatim>\<open>max_size()\<close>.
\<close>

definition read_entry :: "bool \<Rightarrow> ifstream \<Rightarrow> node \<Rightarrow> error + node \<times> ifstream" where
  "read_entry signed_char s root =
     (let (ch, s1) = read_char s;
          (code_length, s2) = read_char s1
      in case code_length of
           None \<Rightarrow> Inl UninitializedRead
         | Some n \<Rightarrow>
             if char_value signed_char n < 0 then Inl LengthError
             else
               (let (code, s3) = read_string (nat (char_value signed_char n)) s2
                in case ch of
                     None \<Rightarrow> Inl UninitializedRead
                   | Some c \<Rightarrow> Inr (insert_code code c root, s3)))"

text \<open>\<^verbatim>\<open>for (int i = 0; i < dict_size; ++i)\<close>, with the number of turns that are left.\<close>

fun read_entries :: "bool \<Rightarrow> nat \<Rightarrow> ifstream \<Rightarrow> node \<Rightarrow> error + node \<times> ifstream" where
  "read_entries signed_char 0 s root = Inr (root, s)"
| "read_entries signed_char (Suc k) s root =
     (case read_entry signed_char s root of
        Inl e \<Rightarrow> Inl e
      | Inr (root1, s1) \<Rightarrow> read_entries signed_char k s1 root1)"

definition read_huffman_dictionary ::
  "bool \<Rightarrow> ifstream \<Rightarrow> node \<Rightarrow> error + node \<times> ifstream" where
  "read_huffman_dictionary signed_char s root =
     (case read_char s of
        (None, s1) \<Rightarrow> Inl UninitializedRead
      | (Some dict_size, s1) \<Rightarrow>
          read_entries signed_char (nat (char_value signed_char dict_size)) s1 root)"

section \<open>Decoder\<close>

text \<open>
  The \<^verbatim>\<open>for (int i = 7; i >= 0; --i)\<close> loop of \<^verbatim>\<open>decode_data\<close>, with \<open>Suc i\<close> the number
  of bits of \<open>buffer\<close> still to look at, so that the bit looked at is bit \<open>i\<close>. Its
  state is \<open>current\<close>, \<open>decoded_text\<close> and \<open>bit_count\<close>; the \<^verbatim>\<open>break\<close> leaves this loop
  only.
\<close>

fun decode_byte ::
  "node \<Rightarrow> int \<Rightarrow> byte \<Rightarrow> nat \<Rightarrow> node \<times> cstring \<times> int \<Rightarrow> error + node \<times> cstring \<times> int" where
  "decode_byte root encoded_length buffer 0 st = Inr st"
| "decode_byte root encoded_length buffer (Suc i) (current, decoded_text, bit_count) =
     (case (if bit buffer i then right current else left current) of
        None \<Rightarrow> Inl NullDereference
      | Some n \<Rightarrow>
          (let (current1, decoded_text1) =
                 (if left n = None \<and> right n = None
                  then (root, decoded_text @ [character n])
                  else (n, decoded_text));
               bit_count1 = bit_count + 1
           in if bit_count1 \<ge> encoded_length then Inr (current1, decoded_text1, bit_count1)
              else decode_byte root encoded_length buffer i
                     (current1, decoded_text1, bit_count1)))"

text \<open>\<^verbatim>\<open>while (infile.read(&buffer, sizeof(char)))\<close>, over the bytes the stream still has.\<close>

fun decode_bytes ::
  "node \<Rightarrow> int \<Rightarrow> byte list \<Rightarrow> node \<times> cstring \<times> int \<Rightarrow> error + node \<times> cstring \<times> int" where
  "decode_bytes root encoded_length [] st = Inr st"
| "decode_bytes root encoded_length (buffer # rest) st =
     (case decode_byte root encoded_length buffer 8 st of
        Inl e \<Rightarrow> Inl e
      | Inr st1 \<Rightarrow> decode_bytes root encoded_length rest st1)"

definition decode_data :: "ifstream \<Rightarrow> node \<Rightarrow> int \<Rightarrow> error + cstring" where
  "decode_data s root encoded_length =
     (case decode_bytes root encoded_length
             (if failbit s then [] else drop (pos s) (content s)) (root, [], 0) of
        Inl e \<Rightarrow> Inl e
      | Inr (current, decoded_text, bit_count) \<Rightarrow> Inr decoded_text)"

text \<open>
  \<^verbatim>\<open>decompress_file\<close>: the result is the text written to the output file.
  \<^verbatim>\<open>static_cast<int>(file_size)\<close> keeps the low 32 bits.
\<close>

definition decompress_file :: "bool \<Rightarrow> byte list \<Rightarrow> error + cstring" where
  "decompress_file signed_char file =
     (case read_huffman_dictionary signed_char (open_file file) (Node 43 0 None None) of
        Inl e \<Rightarrow> Inl e
      | Inr (root, infile) \<Rightarrow>
          (let infile1 = seekg_end infile;
               file_size = tellg infile1;
               infile2 = seekg_back infile1;
               encoded_length = sint (word_of_int file_size :: 32 word)
           in decode_data infile2 root encoded_length))"

section \<open>Notions used in the statements\<close>

text \<open>
  A node has no child, or it has two and its frequency is the sum of theirs; and so
  for every node below it.
\<close>

fun two_or_none :: "node \<Rightarrow> bool" where
  "two_or_none (Node c f l r) =
     (case (l, r) of
        (None, None) \<Rightarrow> True
      | (Some a, Some b) \<Rightarrow> f = frequency a + frequency b \<and> two_or_none a \<and> two_or_none b
      | _ \<Rightarrow> False)"

text \<open>
  \<open>leaf_at t path ch\<close>: the walk from \<open>t\<close> along \<open>path\<close>, left on \<^verbatim>\<open>'0'\<close> and
  right on \<^verbatim>\<open>'1'\<close>, ends in a node without children whose character is \<open>ch\<close>.
\<close>

fun leaf_at :: "node \<Rightarrow> cstring \<Rightarrow> byte \<Rightarrow> bool" where
  "leaf_at (Node c f l r) [] ch = (l = None \<and> r = None \<and> c = ch)"
| "leaf_at (Node c f l r) (b # path) ch =
     (if b = 48 then (case l of None \<Rightarrow> False | Some a \<Rightarrow> leaf_at a path ch)
      else if b = 49 then (case r of None \<Rightarrow> False | Some a \<Rightarrow> leaf_at a path ch)
      else False)"

text \<open>The characters of the leaves of a tree, from left to right.\<close>

fun leaf_chars :: "node \<Rightarrow> byte list" where
  "leaf_chars (Node c f l r) =
     (if l = None \<and> r = None then [c]
      else (case l of None \<Rightarrow> [] | Some a \<Rightarrow> leaf_chars a)
         @ (case r of None \<Rightarrow> [] | Some b \<Rightarrow> leaf_chars b))"

text \<open>
  The walk the reader makes along a code: left on the byte \<^verbatim>\<open>'0'\<close>, right on any
  other byte; \<open>None\<close> when a child is missing.
\<close>

fun descend :: "node \<Rightarrow> cstring \<Rightarrow> node option" where
  "descend t [] = Some t"
| "descend t (b # code) =
     (case (if b = 48 then left t else right t) of
        None \<Rightarrow> None
      | Some n \<Rightarrow> descend n code)"

text \<open>The bits of a byte, from bit 7 down to bit 0.\<close>

definition msb_first :: "byte \<Rightarrow> bool list" where
  "msb_first b = map (\<lambda>i. bit b (7 - i)) [0..<8]"

text \<open>The number of bits that fill a text of \<open>n\<close> bits up to a whole number of bytes.\<close>

definition padding :: "nat \<Rightarrow> nat" where
  "padding n = (8 - n mod 8) mod 8"

text \<open>The largest value a \<^verbatim>\<open>char\<close> holds.\<close>

definition char_max :: "bool \<Rightarrow> nat" where
  "char_max signed_char = (if signed_char then 127 else 255)"

text \<open>
  The bytes of one dictionary entry in the file: the symbol, the length of its code,
  and the code, one byte for each \<^verbatim>\<open>'0'\<close> or \<^verbatim>\<open>'1'\<close>.
\<close>

definition entry_bytes :: "byte \<times> cstring \<Rightarrow> byte list" where
  "entry_bytes e = fst e # of_nat (length (snd e)) # snd e"

text \<open>The entries of a dictionary: the non-empty codes, by increasing byte value.\<close>

definition dict_entries :: "(byte \<Rightarrow> cstring) \<Rightarrow> nat list \<Rightarrow> (byte \<times> cstring) list" where
  "dict_entries dict is =
     map (\<lambda>i. (of_nat i, dict (of_nat i))) (filter (\<lambda>i. dict (of_nat i) \<noteq> []) is)"

text \<open>The tree after the codes of the entries have been inserted one after the other.\<close>

definition insert_entries :: "(byte \<times> cstring) list \<Rightarrow> node \<Rightarrow> node" where
  "insert_entries es root = foldl (\<lambda>t e. insert_code (snd e) (fst e) t) root es"

section \<open>Priority queue and merge loop\<close>

lemma chosen_single: "chosen tc [x] = 0"
  using chosen_bound [of "[x]" tc] by simp

lemma pq_top_single: "pq_top tc [x] = Inr x"
  by (simp add: pq_top_def chosen_single)

lemma chosen_pair_second:
  assumes "frequency b < frequency a"
  shows "chosen tc [a, b] = Suc 0"
proof -
  have "chosen tc [a, b] < 2"
    using chosen_bound [of "[a, b]" tc] by simp
  moreover have "frequency ([a, b] ! chosen tc [a, b]) \<le> frequency b"
    by (rule chosen_least) simp
  ultimately show ?thesis
    using assms by (cases "chosen tc [a, b]") auto
qed

lemma pq_top_mem: "pq_top tc q = Inr n \<Longrightarrow> n \<in> set q"
  using chosen_bound [of q tc] by (auto simp: pq_top_def split: if_splits)

lemma pq_pop_subset: "pq_pop tc q = Inr q' \<Longrightarrow> set q' \<subseteq> set q"
  by (auto simp: pq_pop_def split: if_splits dest: in_set_takeD in_set_dropD)

lemma add_int_Inr: "add_int a b = Inr s \<Longrightarrow> s = a + b"
  by (auto simp: add_int_def split: if_splits)

lemma pq_top_pop_mset:
  assumes "pq_top tc q = Inr a" and "pq_pop tc q = Inr q1"
  shows "mset q = add_mset a (mset q1)"
proof -
  from assms(1) have ne: "q \<noteq> []" and a: "a = q ! chosen tc q"
    by (auto simp: pq_top_def split: if_splits)
  from assms(2) ne have q1: "q1 = take (chosen tc q) q @ drop (Suc (chosen tc q)) q"
    by (simp add: pq_pop_def)
  from id_take_nth_drop [OF chosen_bound [OF ne, of tc]]
  have "mset q = mset (take (chosen tc q) q @ q ! chosen tc q # drop (Suc (chosen tc q)) q)"
    by simp
  then show ?thesis by (simp add: a q1)
qed

lemma pq_top_pop_ok:
  assumes "q \<noteq> []"
  shows "\<exists>a q1. pq_top tc q = Inr a \<and> pq_pop tc q = Inr q1"
  using assms by (simp add: pq_top_def pq_pop_def)

text \<open>One turn of the loop, for a queue of more than one node.\<close>

lemma merge_loop_step:
  assumes "length pq > 1"
  obtains a pq1 b pq2 where
    "pq_top tc pq = Inr a" "pq_pop tc pq = Inr pq1"
    "pq_top tc pq1 = Inr b" "pq_pop tc pq1 = Inr pq2"
    "mset pq = add_mset a (add_mset b (mset pq2))"
    "merge_loop tc pq =
       (case add_int (frequency a) (frequency b) of
          Inl e \<Rightarrow> Inl e
        | Inr s \<Rightarrow> merge_loop tc (pq_push (Node 43 s (Some a) (Some b)) pq2))"
proof -
  from assms have "pq \<noteq> []" by auto
  from pq_top_pop_ok [OF this, of tc] obtain a pq1 where
    1: "pq_top tc pq = Inr a" "pq_pop tc pq = Inr pq1" by blast
  from length_pq_pop [OF 1(2)] assms have "pq1 \<noteq> []" by auto
  from pq_top_pop_ok [OF this, of tc] obtain b pq2 where
    2: "pq_top tc pq1 = Inr b" "pq_pop tc pq1 = Inr pq2" by blast
  have m: "mset pq = add_mset a (add_mset b (mset pq2))"
    using pq_top_pop_mset [OF 1] pq_top_pop_mset [OF 2] by simp
  have "merge_loop tc pq =
       (case add_int (frequency a) (frequency b) of
          Inl e \<Rightarrow> Inl e
        | Inr s \<Rightarrow> merge_loop tc (pq_push (Node 43 s (Some a) (Some b)) pq2))"
    using assms by (subst merge_loop.simps) (simp add: 1 2)
  with 1 2 m show ?thesis by (rule that)
qed

text \<open>
  What holds of every leaf and is kept by a merge holds of every node the loop leaves in
  the queue, whatever the queue's choices.
\<close>

lemma merge_loop_invariant:
  assumes "merge_loop tc pq = Inr pq'"
    and "\<forall>n \<in> set pq. P n"
    and "\<And>a b. P a \<Longrightarrow> P b \<Longrightarrow> P (Node 43 (frequency a + frequency b) (Some a) (Some b))"
  shows "\<forall>n \<in> set pq'. P n"
  using assms(1,2)
proof (induction tc pq rule: merge_loop.induct)
  case (1 tc pq)
  show ?case
  proof (cases "length pq > 1")
    case False
    with "1.prems" show ?thesis by (simp add: merge_loop.simps)
  next
    case True
    from True "1.prems"(1) obtain a pq1 b pq2 s where
      steps: "pq_top tc pq = Inr a" "pq_pop tc pq = Inr pq1"
        "pq_top tc pq1 = Inr b" "pq_pop tc pq1 = Inr pq2"
        "add_int (frequency a) (frequency b) = Inr s"
      and rec: "merge_loop tc (pq_push (Node 43 s (Some a) (Some b)) pq2) = Inr pq'"
      by (subst (asm) merge_loop.simps) (auto split: sum.splits)
    have a: "P a" using steps(1) "1.prems"(2) pq_top_mem by blast
    have sub1: "set pq1 \<subseteq> set pq" using steps(2) by (rule pq_pop_subset)
    have b: "P b" using steps(3) sub1 "1.prems"(2) pq_top_mem by blast
    have sub2: "set pq2 \<subseteq> set pq1" using steps(4) by (rule pq_pop_subset)
    have "P (Node 43 s (Some a) (Some b))"
      using assms(3) [OF a b] add_int_Inr [OF steps(5)] by simp
    then have "\<forall>n \<in> set (pq_push (Node 43 s (Some a) (Some b)) pq2). P n"
      using sub1 sub2 "1.prems"(2) by (auto simp: pq_push_def)
    from "1.IH" [OF True steps(1) steps(2) steps(3) steps(4) steps(5) rec this]
    show ?thesis .
  qed
qed

lemma merge_loop_sum:
  fixes g :: "node \<Rightarrow> 'a :: comm_monoid_add"
  assumes "merge_loop tc pq = Inr pq'"
    and "\<And>a b s. g (Node 43 s (Some a) (Some b)) = g a + g b"
  shows "sum_mset (image_mset g (mset pq')) = sum_mset (image_mset g (mset pq))"
  using assms(1)
proof (induction "length pq" arbitrary: pq rule: less_induct)
  case less
  show ?case
  proof (cases "length pq > 1")
    case False
    with less.prems show ?thesis by (simp add: merge_loop.simps)
  next
    case True
    then obtain a pq1 b pq2 where
      st: "pq_pop tc pq = Inr pq1" "pq_pop tc pq1 = Inr pq2"
        "mset pq = add_mset a (add_mset b (mset pq2))"
        "merge_loop tc pq =
          (case add_int (frequency a) (frequency b) of
             Inl e \<Rightarrow> Inl e
           | Inr s \<Rightarrow> merge_loop tc (pq_push (Node 43 s (Some a) (Some b)) pq2))"
      by (rule merge_loop_step [of pq tc]) blast
    from st(4) less.prems obtain s where
      rec: "merge_loop tc (pq_push (Node 43 s (Some a) (Some b)) pq2) = Inr pq'"
      by (auto split: sum.splits)
    have "length (pq_push (Node 43 s (Some a) (Some b)) pq2) < length pq"
      using length_pq_pop [OF st(1)] length_pq_pop [OF st(2)] by (simp add: pq_push_def)
    from less.hyps [OF this rec]
    show ?thesis by (simp add: pq_push_def st(3) assms(2) add.assoc)
  qed
qed

lemma merge_loop_length:
  assumes "merge_loop tc pq = Inr pq'" and "pq \<noteq> []"
  shows "length pq' = 1"
  using assms
proof (induction "length pq" arbitrary: pq rule: less_induct)
  case less
  show ?case
  proof (cases "length pq > 1")
    case False
    with less.prems show ?thesis by (cases pq) (auto simp: merge_loop.simps)
  next
    case True
    then obtain a pq1 b pq2 where
      st: "pq_pop tc pq = Inr pq1" "pq_pop tc pq1 = Inr pq2"
        "merge_loop tc pq =
          (case add_int (frequency a) (frequency b) of
             Inl e \<Rightarrow> Inl e
           | Inr s \<Rightarrow> merge_loop tc (pq_push (Node 43 s (Some a) (Some b)) pq2))"
      by (rule merge_loop_step [of pq tc]) blast
    from st(3) less.prems obtain s where
      rec: "merge_loop tc (pq_push (Node 43 s (Some a) (Some b)) pq2) = Inr pq'"
      by (auto split: sum.splits)
    have "length (pq_push (Node 43 s (Some a) (Some b)) pq2) < length pq"
      using length_pq_pop [OF st(1)] length_pq_pop [OF st(2)] by (simp add: pq_push_def)
    from less.hyps [OF this rec] show ?thesis by (simp add: pq_push_def)
  qed
qed

text \<open>
  No addition overflows when the frequencies in the queue are positive and their sum is
  below \<open>2 ^ 31\<close>.
\<close>

lemma merge_loop_ok:
  assumes "\<forall>n \<in> set pq. 0 < frequency n"
    and "sum_mset (image_mset frequency (mset pq)) < 2 ^ 31"
  shows "\<exists>pq'. merge_loop tc pq = Inr pq'"
  using assms
proof (induction "length pq" arbitrary: pq rule: less_induct)
  case less
  show ?case
  proof (cases "length pq > 1")
    case False
    then show ?thesis by (simp add: merge_loop.simps)
  next
    case True
    then obtain a pq1 b pq2 where
      st: "pq_pop tc pq = Inr pq1" "pq_pop tc pq1 = Inr pq2"
        "mset pq = add_mset a (add_mset b (mset pq2))"
        "merge_loop tc pq =
          (case add_int (frequency a) (frequency b) of
             Inl e \<Rightarrow> Inl e
           | Inr s \<Rightarrow> merge_loop tc (pq_push (Node 43 s (Some a) (Some b)) pq2))"
      by (rule merge_loop_step [of pq tc]) blast
    have mem: "set pq = insert a (insert b (set pq2))"
      using st(3) by (metis set_mset_add_mset_insert set_mset_mset)
    have pos: "0 < frequency a" "0 < frequency b" "\<forall>n \<in> set pq2. 0 < frequency n"
      using less.prems(1) mem by auto
    have "0 \<le> sum_list (map frequency pq2)"
      using pos(3) by (intro sum_list_nonneg) auto
    then have "0 \<le> sum_mset (image_mset frequency (mset pq2))"
      by (metis mset_map sum_mset_sum_list)
    with less.prems(2) st(3)
    have bound: "frequency a + frequency b < 2 ^ 31"
      and total: "frequency a + frequency b + sum_mset (image_mset frequency (mset pq2)) < 2 ^ 31"
      by simp_all
    with pos have s: "add_int (frequency a) (frequency b) = Inr (frequency a + frequency b)"
      by (simp add: add_int_def)
    let ?pq = "pq_push (Node 43 (frequency a + frequency b) (Some a) (Some b)) pq2"
    have l: "length ?pq < length pq"
      using length_pq_pop [OF st(1)] length_pq_pop [OF st(2)] by (simp add: pq_push_def)
    have p: "\<forall>n \<in> set ?pq. 0 < frequency n"
      using pos by (auto simp: pq_push_def)
    have t: "sum_mset (image_mset frequency (mset ?pq)) < 2 ^ 31"
      using total by (simp add: pq_push_def add.commute add.left_commute)
    from less.hyps [OF l p t] st(4) s show ?thesis by simp
  qed
qed

lemma push_leaves_eq:
  "push_leaves table is pq =
     pq @ map (\<lambda>i. Node (of_nat i) (sint (table (of_nat i))) None None)
            (filter (\<lambda>i. 0 < table (of_nat i)) is)"
  unfolding push_leaves_def by (induction "is" arbitrary: pq) (simp_all add: pq_push_def)

lemma push_leaves_zero: "(\<forall>i. table i = 0) \<Longrightarrow> push_leaves table is pq = pq"
  by (simp add: push_leaves_eq)

lemma build_huffman_tree_invariant:
  assumes "build_huffman_tree tc table = Inr t"
    and "\<And>c f. P (Node c f None None)"
    and "\<And>a b. P a \<Longrightarrow> P b \<Longrightarrow> P (Node 43 (frequency a + frequency b) (Some a) (Some b))"
  shows "P t"
proof -
  from assms(1) obtain pq where pq: "merge_loop tc (push_leaves table [0..<256] []) = Inr pq"
    and top: "pq_top tc pq = Inr t"
    by (auto simp: build_huffman_tree_def split: sum.splits)
  have "\<forall>n \<in> set (push_leaves table [0..<256] []). P n"
    by (auto simp: push_leaves_eq assms(2))
  from merge_loop_invariant [OF pq this assms(3)] pq_top_mem [OF top]
  show ?thesis by blast
qed

section \<open>Frequency table of an input\<close>

lemma fill_frequency_count:
  "fill_frequency dataset table c = table c + of_nat (count_list dataset c)"
  by (induction dataset arbitrary: table) simp_all

lemma unat_of_nat_byte: "i < 256 \<Longrightarrow> unat (of_nat i :: byte) = i"
  by (simp add: unsigned_of_nat take_bit_nat_eq_self)

lemma unat_byte_less: "unat (c :: byte) < 256"
  using unsigned_less [of c, where 'a = nat] by simp

lemma sum_list_map_int: "sum_list (map (\<lambda>x. int (f x)) xs) = int (sum_list (map f xs))"
  by (induction xs) simp_all

lemma ne_set_nonempty: "x \<in> set xs \<Longrightarrow> xs \<noteq> []"
  by auto

lemma count_list_pos_iff: "0 < count_list xs x \<longleftrightarrow> x \<in> set xs"
  using count_list_0_iff [of xs x] by auto

lemma sum_count_list_bytes:
  "(\<Sum>i = 0..<256. count_list dataset (of_nat i :: byte)) = length dataset"
proof (induction dataset)
  case Nil
  show ?case by simp
next
  case (Cons x xs)
  have "(\<Sum>i = 0..<256. if x = (of_nat i :: byte) then 1 else 0 :: nat)
      = (\<Sum>i = 0..<256. if i = unat x then 1 else 0)"
    by (rule sum.cong) (auto simp: unat_of_nat_byte)
  also have "\<dots> = 1"
    using unat_byte_less [of x] by (simp add: sum.delta)
  finally have one: "(\<Sum>i = 0..<256. if x = (of_nat i :: byte) then 1 else 0 :: nat) = 1" .
  have "(\<Sum>i = 0..<256. count_list (x # xs) (of_nat i :: byte))
      = (\<Sum>i = 0..<256. count_list xs (of_nat i :: byte))
        + (\<Sum>i = 0..<256. if x = (of_nat i :: byte) then 1 else 0)"
    by (simp add: sum.distrib [symmetric] cong: sum.cong if_cong) (rule sum.cong, auto)
  with one Cons.IH show ?case by simp
qed

text \<open>The table of an input of fewer than \<open>2 ^ 31\<close> bytes holds the exact counts.\<close>

lemma table_exact:
  assumes "length dataset < 2 ^ 31"
    and "table = fill_frequency dataset (init_frequency z)"
  shows "sint (table c) = int (count_list dataset c)"
    and "0 < table c \<longleftrightarrow> c \<in> set dataset"
proof -
  have le: "count_list dataset c \<le> length dataset" by (rule count_le_length)
  with assms(1) have lt: "count_list dataset c < 2 ^ 31" by simp
  have t: "table c = of_nat (count_list dataset c)"
    by (simp add: assms(2) fill_frequency_count init_frequency_def)
  show "sint (table c) = int (count_list dataset c)"
    using lt by (simp add: t signed_of_nat signed_take_bit_int_eq_self)
  have "unat (table c) = count_list dataset c"
    using lt by (simp add: t unsigned_of_nat take_bit_nat_eq_self)
  then have "0 < table c \<longleftrightarrow> 0 < count_list dataset c"
    by (simp add: word_less_nat_alt)
  then show "0 < table c \<longleftrightarrow> c \<in> set dataset"
    by (simp add: count_list_pos_iff)
qed

lemma build_huffman_tree_ok:
  assumes "dataset \<noteq> []" and "length dataset < 2 ^ 31"
  shows "\<exists>t. build_huffman_tree tc (fill_frequency dataset (init_frequency z)) = Inr t"
proof -
  define table where "table = fill_frequency dataset (init_frequency z)"
  note ex = table_exact [OF assms(2) table_def]
  let ?is = "filter (\<lambda>i. 0 < table (of_nat i)) [0..<256]"
  let ?pq = "push_leaves table [0..<256] []"
  have pq: "?pq = map (\<lambda>i. Node (of_nat i) (sint (table (of_nat i))) None None) ?is"
    by (simp add: push_leaves_eq)
  have pos: "\<forall>n \<in> set ?pq. 0 < frequency n"
    unfolding pq using ex by (auto simp: count_list_pos_iff)
  have "map frequency ?pq = map (\<lambda>i. int (count_list dataset (of_nat i :: byte))) ?is"
    unfolding pq by (simp add: ex(1) comp_def)
  then have "sum_list (map frequency ?pq)
      = int (sum_list (map (\<lambda>i. count_list dataset (of_nat i :: byte)) ?is))"
    by (simp add: sum_list_map_int)
  also have "sum_list (map (\<lambda>i. count_list dataset (of_nat i :: byte)) ?is)
      = sum_list (map (\<lambda>i. count_list dataset (of_nat i :: byte)) [0..<256])"
    by (rule sum_list_map_filter) (simp add: ex(2) count_list_0_iff)
  also have "\<dots> = length dataset"
    using sum_count_list_bytes [of dataset] by (simp add: interv_sum_list_conv_sum_set_nat)
  finally have "sum_list (map frequency ?pq) = int (length dataset)" .
  then have total: "sum_mset (image_mset frequency (mset ?pq)) < 2 ^ 31"
    using assms(2) by (metis mset_map sum_mset_sum_list of_nat_less_numeral_power_cancel_iff)
  from merge_loop_ok [OF pos total, of tc] obtain pq' where
    m: "merge_loop tc ?pq = Inr pq'" by blast
  have "hd dataset \<in> set dataset" using assms(1) by simp
  then have "unat (hd dataset) \<in> set ?is"
    using unat_byte_less [of "hd dataset"] by (simp add: ex(2))
  then have "?is \<noteq> []" by (rule ne_set_nonempty)
  then have "?pq \<noteq> []" unfolding pq by simp
  from merge_loop_length [OF m this] obtain t where "pq' = [t]"
    by (cases pq') auto
  then show ?thesis
    by (simp add: build_huffman_tree_def table_def [symmetric] m pq_top_single)
qed

lemma length_filter_bytes:
  "length (filter (\<lambda>i. (of_nat i :: byte) \<in> A) [0..<256]) = card A"
proof -
  have "set (filter (\<lambda>i. (of_nat i :: byte) \<in> A) [0..<256]) = unat ` A"
  proof (rule set_eqI)
    fix i
    show "i \<in> set (filter (\<lambda>i. (of_nat i :: byte) \<in> A) [0..<256]) \<longleftrightarrow> i \<in> unat ` A"
    proof
      assume "i \<in> set (filter (\<lambda>i. (of_nat i :: byte) \<in> A) [0..<256])"
      then have "i < 256" "(of_nat i :: byte) \<in> A" by simp_all
      then show "i \<in> unat ` A" using unat_of_nat_byte [of i] by force
    next
      assume "i \<in> unat ` A"
      then obtain c where "c \<in> A" "i = unat c" by blast
      then show "i \<in> set (filter (\<lambda>i. (of_nat i :: byte) \<in> A) [0..<256])"
        using unat_byte_less [of c] by simp
    qed
  qed
  moreover have "distinct (filter (\<lambda>i. (of_nat i :: byte) \<in> A) [0..<256])" by simp
  ultimately have "length (filter (\<lambda>i. (of_nat i :: byte) \<in> A) [0..<256]) = card (unat ` A)"
    by (metis distinct_card)
  also have "\<dots> = card A"
    by (rule card_image) (auto simp: inj_on_def word_unat_eq_iff)
  finally show ?thesis .
qed

lemma card_first_bytes: "n \<le> 256 \<Longrightarrow> card (set (map of_nat [0..<n] :: byte list)) = n"
proof -
  assume n: "n \<le> 256"
  have "inj_on (of_nat :: nat \<Rightarrow> byte) (set [0..<n])"
  proof (rule inj_onI)
    fix x y assume xy: "x \<in> set [0..<n]" "y \<in> set [0..<n]"
      and eq: "(of_nat x :: byte) = of_nat y"
    from xy n have "x < 256" "y < 256" by auto
    then have "unat (of_nat x :: byte) = x" "unat (of_nat y :: byte) = y"
      by (simp_all only: unat_of_nat_byte)
    with eq show "x = y" by metis
  qed
  then have "distinct (map of_nat [0..<n] :: byte list)" by (simp add: distinct_map)
  from distinct_card [OF this] show ?thesis by simp
qed

section \<open>Leaves and codes\<close>

lemma generate_dictionary_inner:
  "\<not> (l = None \<and> r = None) \<Longrightarrow>
     generate_dictionary (Node c f l r) code dict =
       (case r of
          None \<Rightarrow> (case l of None \<Rightarrow> dict | Some a \<Rightarrow> generate_dictionary a (code @ [48]) dict)
        | Some b \<Rightarrow> generate_dictionary b (code @ [49])
            (case l of None \<Rightarrow> dict | Some a \<Rightarrow> generate_dictionary a (code @ [48]) dict))"
  by (cases l; cases r; simp add: Let_def)

lemma generate_dictionary_cases:
  "generate_dictionary t code dict ch = dict ch
   \<or> (\<exists>path. generate_dictionary t code dict ch = code @ path \<and> leaf_at t path ch)"
proof (induction t code dict arbitrary: ch rule: generate_dictionary.induct)
  case (1 c f l r code dict)
  show ?case
  proof (cases "l = None \<and> r = None")
    case True
    then show ?thesis by auto
  next
    case False
    let ?dict1 = "case l of None \<Rightarrow> dict | Some a \<Rightarrow> generate_dictionary a (code @ [48]) dict"
    note g = generate_dictionary_inner [OF False, of c f code dict]
    have d1: "?dict1 ch = dict ch
        \<or> (\<exists>path. ?dict1 ch = code @ path \<and> leaf_at (Node c f l r) path ch)" for ch
    proof (cases l)
      case None
      then show ?thesis by simp
    next
      case (Some a)
      from "1.IH"(1) [OF False Some, of ch]
      show ?thesis
      proof
        assume "generate_dictionary a (code @ [48]) dict ch = dict ch"
        then show ?thesis by (simp add: Some)
      next
        assume "\<exists>path. generate_dictionary a (code @ [48]) dict ch = (code @ [48]) @ path
                  \<and> leaf_at a path ch"
        then obtain path where
          "generate_dictionary a (code @ [48]) dict ch = code @ 48 # path" "leaf_at a path ch"
          by auto
        then have "?dict1 ch = code @ (48 # path) \<and> leaf_at (Node c f l r) (48 # path) ch"
          by (simp add: Some)
        then show ?thesis by blast
      qed
    qed
    show ?thesis
    proof (cases r)
      case None
      with g d1 [of ch] show ?thesis by simp
    next
      case (Some b)
      from "1.IH"(2) [OF False refl Some, of ch]
      show ?thesis
      proof
        assume "generate_dictionary b (code @ [49]) ?dict1 ch = ?dict1 ch"
        with g Some d1 [of ch] show ?thesis by simp
      next
        assume "\<exists>path. generate_dictionary b (code @ [49]) ?dict1 ch = (code @ [49]) @ path
                  \<and> leaf_at b path ch"
        then obtain path where
          "generate_dictionary b (code @ [49]) ?dict1 ch = code @ 49 # path" "leaf_at b path ch"
          by auto
        then have "generate_dictionary (Node c f l r) code dict ch = code @ (49 # path)
            \<and> leaf_at (Node c f l r) (49 # path) ch"
          using g Some by simp
        then show ?thesis by blast
      qed
    qed
  qed
qed

lemma leaf_at_prefix:
  "leaf_at t p a \<Longrightarrow> leaf_at t q b \<Longrightarrow> prefix p q \<Longrightarrow> p = q \<and> a = b"
proof (induction t p a arbitrary: q rule: leaf_at.induct)
  case (1 c f l r ch)
  then show ?case by (cases q) (auto split: if_splits)
next
  case (2 c f l r x path ch)
  from "2.prems"(3) obtain q' where q: "q = x # q'" and pre: "prefix path q'"
    by (cases q) auto
  show ?case
  proof (cases "x = 48")
    case True
    with "2.prems"(1) obtain n where l: "l = Some n" and a: "leaf_at n path ch"
      by (auto split: option.splits)
    from "2.prems"(2) q True l have "leaf_at n q' b" by simp
    from "2.IH"(1) [OF True l a this pre] q show ?thesis by simp
  next
    case False
    with "2.prems"(1) have x: "x = 49" by (auto split: if_splits)
    with "2.prems"(1) obtain n where r: "r = Some n" and a: "leaf_at n path ch"
      by (auto split: option.splits)
    from "2.prems"(2) q x r have "leaf_at n q' b" by simp
    from "2.IH"(2) [OF False x r a this pre] q show ?thesis by simp
  qed
qed

lemma generate_dictionary_prefix_free:
  assumes "a \<noteq> b" and "generate_dictionary t [] (\<lambda>i. []) a \<noteq> []"
  shows "\<not> prefix (generate_dictionary t [] (\<lambda>i. []) a) (generate_dictionary t [] (\<lambda>i. []) b)"
proof
  let ?d = "generate_dictionary t [] (\<lambda>i. [])"
  assume pre: "prefix (?d a) (?d b)"
  from generate_dictionary_cases [of t "[]" "\<lambda>i. []" a] assms(2)
  have la: "leaf_at t (?d a) a" by auto
  from pre assms(2) have "?d b \<noteq> []" by auto
  with generate_dictionary_cases [of t "[]" "\<lambda>i. []" b]
  have lb: "leaf_at t (?d b) b" by auto
  from leaf_at_prefix [OF la lb pre] assms(1) show False by simp
qed

lemma generate_dictionary_other:
  "ch \<notin> set (leaf_chars t) \<Longrightarrow> generate_dictionary t code dict ch = dict ch"
proof (induction t code dict rule: generate_dictionary.induct)
  case (1 c f l r code dict)
  show ?case
  proof (cases "l = None \<and> r = None")
    case True
    with "1.prems" show ?thesis by auto
  next
    case False
    let ?dict1 = "case l of None \<Rightarrow> dict | Some a \<Rightarrow> generate_dictionary a (code @ [48]) dict"
    have d1: "?dict1 ch = dict ch"
    proof (cases l)
      case None
      then show ?thesis by simp
    next
      case (Some a)
      with "1.prems" False have "ch \<notin> set (leaf_chars a)" by simp
      from "1.IH"(1) [OF False Some this] Some show ?thesis by simp
    qed
    show ?thesis
    proof (cases r)
      case None
      with d1 generate_dictionary_inner [OF False, of c f code dict] show ?thesis by simp
    next
      case (Some b)
      with "1.prems" False have "ch \<notin> set (leaf_chars b)" by simp
      from "1.IH"(2) [OF False refl Some this] Some d1
        generate_dictionary_inner [OF False, of c f code dict]
      show ?thesis by simp
    qed
  qed
qed

lemma generate_dictionary_leaf:
  "ch \<in> set (leaf_chars t) \<Longrightarrow>
     \<exists>path. generate_dictionary t code dict ch = code @ path \<and> leaf_at t path ch"
  using generate_dictionary_cases [of t code dict ch]
proof (induction t code dict rule: generate_dictionary.induct)
  case (1 c f l r code dict)
  show ?case
  proof (cases "l = None \<and> r = None")
    case True
    with "1.prems"(1) show ?thesis by auto
  next
    case False
    let ?dict1 = "case l of None \<Rightarrow> dict | Some a \<Rightarrow> generate_dictionary a (code @ [48]) dict"
    note g = generate_dictionary_inner [OF False, of c f code dict]
    have in_right: "\<exists>path. generate_dictionary (Node c f l r) code dict ch = code @ path
        \<and> leaf_at (Node c f l r) path ch"
      if r: "r = Some b" and m: "ch \<in> set (leaf_chars b)" for b
    proof -
      from "1.IH"(2) [OF False refl r m generate_dictionary_cases]
      obtain path where "generate_dictionary b (code @ [49]) ?dict1 ch = (code @ [49]) @ path"
        "leaf_at b path ch" by blast
      then have "generate_dictionary (Node c f l r) code dict ch = code @ (49 # path)
          \<and> leaf_at (Node c f l r) (49 # path) ch"
        using g r by simp
      then show ?thesis by blast
    qed
    have in_left: "\<exists>path. ?dict1 ch = code @ path \<and> leaf_at (Node c f l r) path ch"
      if l: "l = Some a" and m: "ch \<in> set (leaf_chars a)" for a
    proof -
      from "1.IH"(1) [OF False l m generate_dictionary_cases]
      obtain path where "generate_dictionary a (code @ [48]) dict ch = (code @ [48]) @ path"
        "leaf_at a path ch" by blast
      then have "?dict1 ch = code @ (48 # path) \<and> leaf_at (Node c f l r) (48 # path) ch"
        using l by simp
      then show ?thesis by blast
    qed
    show ?thesis
    proof (cases r)
      case None
      with "1.prems"(1) False obtain a where l: "l = Some a" and m: "ch \<in> set (leaf_chars a)"
        by (auto split: option.splits)
      from in_left [OF l m] g None show ?thesis by simp
    next
      case (Some b)
      show ?thesis
      proof (cases "ch \<in> set (leaf_chars b)")
        case True
        with Some show ?thesis by (rule in_right)
      next
        case False
        with "1.prems"(1) \<open>\<not> (l = None \<and> r = None)\<close> Some
        obtain a where l: "l = Some a" and m: "ch \<in> set (leaf_chars a)"
          by (auto split: option.splits)
        from generate_dictionary_other [OF False, of "code @ [49]" ?dict1] g Some
        have "generate_dictionary (Node c f l r) code dict ch = ?dict1 ch" by simp
        with in_left [OF l m] show ?thesis by simp
      qed
    qed
  qed
qed

lemma leaf_chars_merge:
  "mset (leaf_chars (Node 43 s (Some a) (Some b))) = mset (leaf_chars a) + mset (leaf_chars b)"
  by simp

lemma leaf_chars_leaves:
  "sum_mset (image_mset (\<lambda>n. mset (leaf_chars n))
      (mset (map (\<lambda>i. Node (c i) (f i) None None) is))) = mset (map c is)"
  by (induction "is") simp_all

lemma build_huffman_tree_leaf_chars:
  assumes "build_huffman_tree tc table = Inr t"
  shows "mset (leaf_chars t)
           = mset (map of_nat (filter (\<lambda>i. 0 < table (of_nat i)) [0..<256]))"
proof -
  let ?is = "filter (\<lambda>i. 0 < table (of_nat i)) [0..<256]"
  let ?pq = "push_leaves table [0..<256] []"
  from assms obtain pq where pq: "merge_loop tc ?pq = Inr pq" and top: "pq_top tc pq = Inr t"
    by (auto simp: build_huffman_tree_def split: sum.splits)
  from top have ne: "pq \<noteq> []" by (auto simp: pq_top_def split: if_splits)
  have "?pq \<noteq> []"
  proof
    assume "?pq = []"
    with pq ne show False by (simp add: merge_loop.simps)
  qed
  from merge_loop_length [OF pq this] top have one: "pq = [t]"
    by (cases pq) (auto simp: pq_top_single)
  have "sum_mset (image_mset (\<lambda>n. mset (leaf_chars n)) (mset pq))
      = sum_mset (image_mset (\<lambda>n. mset (leaf_chars n)) (mset ?pq))"
    using pq by (rule merge_loop_sum) (rule leaf_chars_merge)
  also have "\<dots> = mset (map of_nat ?is)"
    unfolding push_leaves_eq append_Nil by (rule leaf_chars_leaves)
  finally show ?thesis by (simp add: one)
qed

lemma leaf_chars_nonempty: "two_or_none t \<Longrightarrow> leaf_chars t \<noteq> []"
  by (induction t rule: two_or_none.induct) (auto split: option.splits)

lemma leaf_at_depth:
  "two_or_none t \<Longrightarrow> leaf_at t path ch \<Longrightarrow> length path < length (leaf_chars t)"
proof (induction t path ch rule: leaf_at.induct)
  case (1 c f l r ch)
  then show ?case by simp
next
  case (2 c f l r b path ch)
  from "2.prems"(2) have b: "b = 48 \<or> b = 49" by (auto split: if_splits)
  from "2.prems"(2) have "\<not> (l = None \<and> r = None)" by (auto split: if_splits)
  with "2.prems"(1) obtain x y where lr: "l = Some x" "r = Some y"
    and t: "two_or_none x" "two_or_none y"
    by (auto split: option.splits)
  have ne: "leaf_chars x \<noteq> []" "leaf_chars y \<noteq> []"
    using t by (simp_all add: leaf_chars_nonempty)
  show ?case
  proof (cases "b = 48")
    case True
    with "2.prems"(2) lr have "leaf_at x path ch" by simp
    from "2.IH"(1) [OF True lr(1) t(1) this] ne lr show ?thesis
      by (cases "leaf_chars y") simp_all
  next
    case False
    with b have b49: "b = 49" by simp
    with "2.prems"(2) lr have "leaf_at y path ch" by simp
    from "2.IH"(2) [OF False b49 lr(2) t(2) this] ne lr show ?thesis
      by (cases "leaf_chars x") simp_all
  qed
qed

text \<open>
  The dictionary of a tree with at least two leaves: a byte value has a non-empty code
  exactly when it is the character of a leaf, and a code is shorter than the number of
  leaves.
\<close>

lemma generate_dictionary_codes:
  assumes "two_or_none t" and "2 \<le> length (leaf_chars t)"
    and "dict = generate_dictionary t [] (\<lambda>i. [])"
  shows "dict ch \<noteq> [] \<longleftrightarrow> ch \<in> set (leaf_chars t)"
    and "length (dict ch) < length (leaf_chars t)"
proof -
  have not_leaf: "\<not> leaf_at t [] ch"
    using assms(2) by (cases t) auto
  show "dict ch \<noteq> [] \<longleftrightarrow> ch \<in> set (leaf_chars t)"
  proof
    assume "dict ch \<noteq> []"
    then show "ch \<in> set (leaf_chars t)"
      using generate_dictionary_other [of ch t "[]" "\<lambda>i. []"] by (auto simp: assms(3))
  next
    assume "ch \<in> set (leaf_chars t)"
    from generate_dictionary_leaf [OF this, of "[]" "\<lambda>i. []"]
    obtain path where "dict ch = path" "leaf_at t path ch" by (auto simp: assms(3))
    with not_leaf show "dict ch \<noteq> []" by auto
  qed
  show "length (dict ch) < length (leaf_chars t)"
  proof (cases "ch \<in> set (leaf_chars t)")
    case True
    from generate_dictionary_leaf [OF this, of "[]" "\<lambda>i. []"]
    obtain path where "dict ch = path" "leaf_at t path ch" by (auto simp: assms(3))
    with leaf_at_depth [OF assms(1)] show ?thesis by simp
  next
    case False
    then have "dict ch = []"
      using generate_dictionary_other [of ch t "[]" "\<lambda>i. []"] by (simp add: assms(3))
    with assms(2) show ?thesis by (cases "leaf_chars t") simp_all
  qed
qed

section \<open>Bit packer\<close>

lemma encode_text_acc:
  "foldl (\<lambda>encoded ch. encoded @ dict ch) acc text = acc @ concat (map dict text)"
  by (induction "text" arbitrary: acc) simp_all

lemma encode_text_concat: "encode_text text dict = concat (map dict text)"
  by (simp add: encode_text_def encode_text_acc)

lemma take_msb_first: "k \<le> 8 \<Longrightarrow> take k (msb_first b) = map (\<lambda>i. bit b (7 - i)) [0..<k]"
  by (simp add: msb_first_def take_map)

lemma msb_first_low_clear:
  assumes "k \<le> 8" and "\<forall>j < 8 - k. \<not> bit b j"
  shows "msb_first b = map (\<lambda>i. bit b (7 - i)) [0..<k] @ replicate (8 - k) False"
proof (rule nth_equalityI)
  show "length (msb_first b) = length (map (\<lambda>i. bit b (7 - i)) [0..<k] @ replicate (8 - k) False)"
    using assms(1) by (simp add: msb_first_def)
next
  fix i assume "i < length (msb_first b)"
  then have i: "i < 8" by (simp add: msb_first_def)
  show "msb_first b ! i = (map (\<lambda>i. bit b (7 - i)) [0..<k] @ replicate (8 - k) False) ! i"
  proof (cases "i < k")
    case True
    with i show ?thesis by (simp add: msb_first_def nth_append)
  next
    case False
    with i assms(2) have "\<not> bit b (7 - i)" by simp
    with False i show ?thesis by (simp add: msb_first_def nth_append)
  qed
qed

lemma bit_set_one:
  fixes buffer :: byte
  assumes "n < 8"
  shows "bit (buffer OR push_bit n 1) j \<longleftrightarrow> bit buffer j \<or> j = n"
  using assms by (auto simp: bit_or_iff bit_exp_iff possible_bit_word)

lemma pack_bits_bits:
  assumes "bit_pos < 8" and "\<forall>j < 8 - bit_pos. \<not> bit buffer j"
  shows "concat (map msb_first (pack_bits encoded_text buffer bit_pos)) =
           take bit_pos (msb_first buffer) @ map (\<lambda>b. b = 49) encoded_text
             @ replicate (padding (bit_pos + length encoded_text)) False"
  using assms
proof (induction encoded_text arbitrary: buffer bit_pos)
  case Nil
  show ?case
  proof (cases "bit_pos = 0")
    case True
    then show ?thesis by (simp add: padding_def)
  next
    case False
    with Nil.prems(1) have p: "padding bit_pos = 8 - bit_pos" by (simp add: padding_def)
    from msb_first_low_clear [of bit_pos buffer] Nil.prems
    have "msb_first buffer = take bit_pos (msb_first buffer) @ replicate (8 - bit_pos) False"
      by (simp add: take_msb_first)
    with False p show ?thesis by simp
  qed
next
  case (Cons b encoded_text)
  define buffer1 where "buffer1 = (if b = 49 then buffer OR push_bit (7 - bit_pos) 1 else buffer)"
  have bit1: "bit buffer1 j \<longleftrightarrow> bit buffer j \<or> (b = 49 \<and> j = 7 - bit_pos)" for j
    using Cons.prems(1) bit_set_one [of "7 - bit_pos" buffer j] by (simp add: buffer1_def)
  have clear: "\<not> bit buffer (7 - bit_pos)"
    using Cons.prems by simp
  have tk: "take (Suc bit_pos) (msb_first buffer1) = take bit_pos (msb_first buffer) @ [b = 49]"
  proof -
    have "map (\<lambda>i. bit buffer1 (7 - i)) [0..<bit_pos] = map (\<lambda>i. bit buffer (7 - i)) [0..<bit_pos]"
      using Cons.prems(1) by (auto simp: bit1)
    moreover have "bit buffer1 (7 - bit_pos) \<longleftrightarrow> b = 49"
      using clear by (simp add: bit1)
    ultimately show ?thesis
      using Cons.prems(1) by (simp add: take_msb_first)
  qed
  show ?case
  proof (cases "Suc bit_pos = 8")
    case True
    then have "pack_bits (b # encoded_text) buffer bit_pos = buffer1 # pack_bits encoded_text 0 0"
      by (simp add: buffer1_def Let_def)
    moreover have "concat (map msb_first (pack_bits encoded_text 0 0)) =
        map (\<lambda>b. b = 49) encoded_text @ replicate (padding (length encoded_text)) False"
      using Cons.IH [of 0 0] by simp
    moreover have "msb_first buffer1 = take bit_pos (msb_first buffer) @ [b = 49]"
      using tk True by (simp add: msb_first_def)
    moreover have "padding (bit_pos + length (b # encoded_text)) = padding (length encoded_text)"
      using True by (simp add: padding_def)
    ultimately show ?thesis by simp
  next
    case False
    with Cons.prems(1) have lt: "Suc bit_pos < 8" by simp
    have step: "pack_bits (b # encoded_text) buffer bit_pos = pack_bits encoded_text buffer1 (Suc bit_pos)"
      using False by (simp add: buffer1_def Let_def)
    have low: "\<forall>j < 8 - Suc bit_pos. \<not> bit buffer1 j"
      using Cons.prems(2) by (auto simp: bit1)
    from Cons.IH [OF lt low] tk step show ?thesis by simp
  qed
qed

section \<open>Header: what is written is what is read\<close>

lemma char_value_of_nat:
  "n \<le> char_max signed_char \<Longrightarrow> char_value signed_char (of_nat n) = int n"
proof (cases signed_char)
  case True
  assume "n \<le> char_max signed_char"
  with True have n: "n \<le> 127" by (simp add: char_max_def)
  then have "sint (of_nat n :: byte) = int n"
    by (simp add: signed_of_nat signed_take_bit_int_eq_self)
  with True show ?thesis by (simp add: char_value_def)
next
  case False
  assume "n \<le> char_max signed_char"
  with False have n: "n \<le> 255" by (simp add: char_max_def)
  then have "uint (of_nat n :: byte) = int n"
    by (simp add: unsigned_of_nat take_bit_nat_eq_self)
  with False show ?thesis by (simp add: char_value_def)
qed

lemma write_entry_ok:
  "length code \<le> char_max signed_char \<Longrightarrow>
     write_entry signed_char c code = Inr (entry_bytes (c, code))"
  by (simp add: write_entry_def char_value_of_nat entry_bytes_def)

lemma write_entries_ok:
  "\<forall>i \<in> set is. length (dict (of_nat i)) \<le> char_max signed_char \<Longrightarrow>
     write_entries signed_char dict is = Inr (concat (map entry_bytes (dict_entries dict is)))"
  by (induction "is") (simp_all add: write_entry_ok dict_entries_def)

lemma read_char_next:
  assumes "\<not> failbit s" and "drop (pos s) (content s) = b # rest"
  shows "read_char s = (Some b, s\<lparr>pos := Suc (pos s)\<rparr>)"
    and "drop (Suc (pos s)) (content s) = rest"
proof -
  from assms(2) have lt: "pos s < length (content s)"
    by (cases "pos s < length (content s)") simp_all
  from assms(2) have "hd (drop (pos s) (content s)) = b" by simp
  with lt have "content s ! pos s = b" by (simp add: hd_drop_conv_nth)
  with lt assms(1) show "read_char s = (Some b, s\<lparr>pos := Suc (pos s)\<rparr>)"
    by (simp add: read_char_def)
  from assms(2) have "tl (drop (pos s) (content s)) = rest" by simp
  then show "drop (Suc (pos s)) (content s) = rest" by (simp add: drop_Suc tl_drop)
qed

lemma read_string_next:
  assumes "\<not> failbit s" and "drop (pos s) (content s) = code @ rest"
  shows "read_string (length code) s = (code, s\<lparr>pos := pos s + length code\<rparr>)"
  using assms by (simp add: read_string_def)

lemma read_entry_ok:
  assumes "\<not> failbit s" and "drop (pos s) (content s) = entry_bytes (c, code) @ rest"
    and "length code \<le> char_max signed_char"
  shows "read_entry signed_char s root
           = Inr (insert_code code c root, s\<lparr>pos := pos s + length (entry_bytes (c, code))\<rparr>)"
proof -
  let ?s1 = "s\<lparr>pos := Suc (pos s)\<rparr>"
  let ?s2 = "s\<lparr>pos := Suc (Suc (pos s))\<rparr>"
  from assms(2) have d0: "drop (pos s) (content s) = c # (of_nat (length code) # code @ rest)"
    by (simp add: entry_bytes_def)
  from read_char_next [OF assms(1) d0]
  have r1: "read_char s = (Some c, ?s1)"
    and d1: "drop (pos ?s1) (content ?s1) = of_nat (length code) # (code @ rest)" by simp_all
  have f1: "\<not> failbit ?s1" using assms(1) by simp
  from read_char_next [OF f1 d1]
  have r2: "read_char ?s1 = (Some (of_nat (length code)), ?s2)"
    and d2: "drop (pos ?s2) (content ?s2) = code @ rest" by simp_all
  have f2: "\<not> failbit ?s2" using assms(1) by simp
  from read_string_next [OF f2 d2]
  have r3: "read_string (length code) ?s2 = (code, s\<lparr>pos := pos s + length (entry_bytes (c, code))\<rparr>)"
    by (simp add: entry_bytes_def)
  show ?thesis
    by (simp add: read_entry_def r1 r2 r3 char_value_of_nat [OF assms(3)])
qed

lemma read_entries_ok:
  assumes "\<not> failbit s" and "drop (pos s) (content s) = concat (map entry_bytes es) @ rest"
    and "\<forall>e \<in> set es. length (snd e) \<le> char_max signed_char"
  shows "read_entries signed_char (length es) s root
           = Inr (insert_entries es root, s\<lparr>pos := pos s + length (concat (map entry_bytes es))\<rparr>)"
  using assms
proof (induction es arbitrary: s root)
  case Nil
  then show ?case by (simp add: insert_entries_def)
next
  case (Cons e es)
  obtain c code where e: "e = (c, code)" by (cases e)
  let ?s1 = "s\<lparr>pos := pos s + length (entry_bytes (c, code))\<rparr>"
  from Cons.prems(2) have d: "drop (pos s) (content s)
      = entry_bytes (c, code) @ (concat (map entry_bytes es) @ rest)"
    by (simp add: e)
  from Cons.prems(3) have len: "length code \<le> char_max signed_char" by (simp add: e)
  note r = read_entry_ok [OF Cons.prems(1) d len, of root]
  have f1: "\<not> failbit ?s1" using Cons.prems(1) by simp
  have "drop (pos ?s1) (content ?s1) = drop (length (entry_bytes (c, code))) (drop (pos s) (content s))"
    by (simp add: add.commute)
  with d have d1: "drop (pos ?s1) (content ?s1) = concat (map entry_bytes es) @ rest"
    by simp
  from Cons.prems(3) have l1: "\<forall>e \<in> set es. length (snd e) \<le> char_max signed_char" by simp
  from Cons.IH [OF f1 d1 l1, of "insert_code code c root"] r
  show ?case by (simp add: e insert_entries_def add.assoc)
qed

lemma read_huffman_dictionary_ok:
  assumes "length es \<le> char_max signed_char"
    and "\<forall>e \<in> set es. length (snd e) \<le> char_max signed_char"
  shows "read_huffman_dictionary signed_char
           (open_file (of_nat (length es) # concat (map entry_bytes es) @ payload)) root
         = Inr (insert_entries es root,
                \<lparr>content = of_nat (length es) # concat (map entry_bytes es) @ payload,
                 pos = Suc (length (concat (map entry_bytes es))), failbit = False\<rparr>)"
proof -
  let ?file = "of_nat (length es) # concat (map entry_bytes es) @ payload"
  let ?s1 = "(open_file ?file)\<lparr>pos := Suc 0\<rparr>"
  have r1: "read_char (open_file ?file) = (Some (of_nat (length es)), ?s1)"
    by (simp add: read_char_def open_file_def)
  have f1: "\<not> failbit ?s1" by (simp add: open_file_def)
  have d1: "drop (pos ?s1) (content ?s1) = concat (map entry_bytes es) @ payload"
    by (simp add: open_file_def)
  from read_entries_ok [OF f1 d1 assms(2), of root]
  show ?thesis
    by (simp add: read_huffman_dictionary_def read_char_def char_value_of_nat [OF assms(1)]
        open_file_def)
qed

lemma descend_insert_code:
  "\<exists>n. descend (insert_code code ch t) code = Some n \<and> character n = ch"
  by (induction code ch t rule: insert_code.induct) auto

lemma dict_size_byte_entries:
  "dict_size_byte dict = of_nat (length (dict_entries dict [0..<256]))"
  by (simp add: dict_size_byte_def dict_entries_def)

lemma compress_file_header:
  assumes "build_huffman_tree tc table = Inr t"
    and "table = fill_frequency dataset (init_frequency (\<lambda>i. 0))"
    and "k = length (filter (\<lambda>i. 0 < table (of_nat i)) [0..<256])"
    and "2 \<le> k" and "k \<le> Suc (char_max signed_char)"
    and "dict = generate_dictionary t [] (\<lambda>i. [])"
  shows "compress_file tc signed_char dataset
           = Inr (of_nat k # concat (map entry_bytes (dict_entries dict [0..<256]))
                    @ pack_bits (encode_text dataset dict) 0 0)"
    and "length (dict_entries dict [0..<256]) = k"
    and "\<forall>c. length (dict c) \<le> char_max signed_char"
proof -
  let ?is = "filter (\<lambda>i. 0 < table (of_nat i)) [0..<256]"
  note lc = build_huffman_tree_leaf_chars [OF assms(1)]
  from lc have len: "length (leaf_chars t) = k"
    by (metis assms(3) length_map size_mset)
  from lc have set_lc: "set (leaf_chars t) = set (map of_nat ?is)"
    by (metis set_mset_mset)
  have two: "two_or_none t" using assms(1) by (rule build_huffman_tree_invariant) simp_all
  have k2: "2 \<le> length (leaf_chars t)" using len assms(4) by simp
  note codes = generate_dictionary_codes [OF two k2 assms(6)]
  have "filter (\<lambda>i. dict (of_nat i) \<noteq> []) [0..<256] = ?is"
  proof (rule filter_cong [OF refl])
    fix i assume "i \<in> set [0..<256]"
    then have i: "i < 256" by simp
    show "(dict (of_nat i) \<noteq> []) = (0 < table (of_nat i))"
      unfolding codes(1) set_lc using i by auto
  qed
  then show n: "length (dict_entries dict [0..<256]) = k"
    by (simp add: dict_entries_def assms(3))
  show l: "\<forall>c. length (dict c) \<le> char_max signed_char"
  proof
    fix c
    from codes(2) [of c] len assms(5) show "length (dict c) \<le> char_max signed_char"
      by linarith
  qed
  have w: "write_entries signed_char dict [0..<256]
      = Inr (concat (map entry_bytes (dict_entries dict [0..<256])))"
    by (rule write_entries_ok) (simp add: l)
  show "compress_file tc signed_char dataset
           = Inr (of_nat k # concat (map entry_bytes (dict_entries dict [0..<256]))
                    @ pack_bits (encode_text dataset dict) 0 0)"
    using assms(1) n
    by (simp add: compress_file_def assms(2) [symmetric] assms(6) [symmetric]
        write_compressed_file_def w dict_size_byte_entries)
qed

text \<open>
  The file of an input of fewer than \<open>2 ^ 31\<close> bytes with \<open>k \<ge> 2\<close> distinct byte values,
  where a \<^verbatim>\<open>char\<close> can hold every code length: the count byte is \<open>k\<close> cut to 8 bits,
  and \<open>k\<close> entries follow.
\<close>

lemma compress_file_count:
  assumes "length dataset < 2 ^ 31" and "2 \<le> card (set dataset)"
    and "card (set dataset) \<le> Suc (char_max signed_char)"
  shows "\<exists>dict. compress_file tc signed_char dataset
           = Inr (of_nat (card (set dataset))
                    # concat (map entry_bytes (dict_entries dict [0..<256]))
                    @ pack_bits (encode_text dataset dict) 0 0)
         \<and> length (dict_entries dict [0..<256]) = card (set dataset)
         \<and> (\<forall>c. length (dict c) \<le> char_max signed_char)"
proof -
  define table where "table = fill_frequency dataset (init_frequency (\<lambda>i. 0))"
  have "dataset \<noteq> []"
  proof
    assume "dataset = []"
    with assms(2) show False by simp
  qed
  from build_huffman_tree_ok [OF this assms(1), of tc "\<lambda>i. 0"]
  obtain t where t: "build_huffman_tree tc table = Inr t" by (auto simp: table_def)
  have k: "card (set dataset) = length (filter (\<lambda>i. 0 < table (of_nat i)) [0..<256])"
    by (simp add: table_exact(2) [OF assms(1) table_def] length_filter_bytes)
  from compress_file_header [OF t table_def k assms(2,3) refl]
  show ?thesis by blast
qed

text \<open>
  Where the \<^verbatim>\<open>char\<close> type holds the count (up to 127 when it is signed, up to 255 when
  it is not), the reader takes the count that was written and reads that many entries.
\<close>

lemma symbol_count_read_back:
  assumes "length dataset < 2 ^ 31" and "2 \<le> card (set dataset)"
    and "card (set dataset) \<le> char_max signed_char"
  shows "\<exists>file es. compress_file tc signed_char dataset = Inr file
           \<and> hd file = of_nat (card (set dataset))
           \<and> length es = card (set dataset)
           \<and> read_huffman_dictionary signed_char (open_file file) root
               = Inr (insert_entries es root,
                      \<lparr>content = file, pos = Suc (length (concat (map entry_bytes es))),
                       failbit = False\<rparr>)"
proof -
  from assms(3) have "card (set dataset) \<le> Suc (char_max signed_char)" by simp
  from compress_file_count [OF assms(1,2) this, of tc] obtain dict where
    f: "compress_file tc signed_char dataset
          = Inr (of_nat (card (set dataset))
                   # concat (map entry_bytes (dict_entries dict [0..<256]))
                   @ pack_bits (encode_text dataset dict) 0 0)"
    and n: "length (dict_entries dict [0..<256]) = card (set dataset)"
    and l: "\<forall>c. length (dict c) \<le> char_max signed_char"
    by blast
  let ?es = "dict_entries dict [0..<256]"
  have k: "length ?es \<le> char_max signed_char" using n assms(3) by simp
  have ls: "\<forall>e \<in> set ?es. length (snd e) \<le> char_max signed_char"
    using l by (auto simp: dict_entries_def)
  from read_huffman_dictionary_ok [OF k ls, of "pack_bits (encode_text dataset dict) 0 0" root]
    f n
  show ?thesis
    by (intro exI [of _ "of_nat (card (set dataset)) # concat (map entry_bytes ?es)
          @ pack_bits (encode_text dataset dict) 0 0"] exI [of _ ?es]) simp
qed

section \<open>Stream after the header\<close>

lemma read_char_content: "read_char s = (c, s') \<Longrightarrow> content s' = content s"
  by (auto simp: read_char_def split: if_splits)

lemma read_string_content: "read_string n s = (code, s') \<Longrightarrow> content s' = content s"
  by (auto simp: read_string_def Let_def split: if_splits)

lemma read_entry_content:
  "read_entry signed_char s root = Inr (root', s') \<Longrightarrow> content s' = content s"
  by (auto simp: read_entry_def Let_def split: prod.splits option.splits if_splits
      dest!: read_char_content read_string_content)

lemma read_entries_content:
  "read_entries signed_char k s root = Inr (root', s') \<Longrightarrow> content s' = content s"
proof (induction k arbitrary: s root)
  case 0
  then show ?case by simp
next
  case (Suc k)
  then show ?case
    by (auto split: sum.splits dest!: read_entry_content)
qed

lemma read_huffman_dictionary_content:
  assumes "read_huffman_dictionary signed_char (open_file file) root = Inr (root', s')"
  shows "content s' = file" and "file \<noteq> []"
proof -
  from assms obtain n s1 where r: "read_char (open_file file) = (Some n, s1)"
    and e: "read_entries signed_char (nat (char_value signed_char n)) s1 root = Inr (root', s')"
    by (auto simp: read_huffman_dictionary_def split: prod.splits option.splits)
  from read_char_content [OF r] read_entries_content [OF e]
  show "content s' = file" by (simp add: open_file_def)
  from r show "file \<noteq> []" by (auto simp: read_char_def open_file_def split: if_splits)
qed

lemma decode_data_last:
  assumes "file \<noteq> []"
  shows "decode_data \<lparr>content = file, pos = length file - 1, failbit = False\<rparr> root n
         = decode_data (open_file [last file]) root n"
proof -
  from assms have "drop (length file - 1) file = [last file]"
    by (cases "file" rule: rev_cases) auto
  then show ?thesis by (simp add: decode_data_def open_file_def)
qed

text \<open>
  After the header, \<^verbatim>\<open>decompress_file\<close> seeks to the end, takes the position for the
  file size, and steps one byte back; all three do nothing on a failed stream.
\<close>

lemma decompress_file_after_header:
  assumes "read_huffman_dictionary signed_char (open_file file) (Node 43 0 None None)
             = Inr (root, infile)"
  shows "decompress_file signed_char file =
           (if failbit infile then Inr []
            else decode_data \<lparr>content = file, pos = length file - 1, failbit = False\<rparr>
                   root (sint (word_of_nat (length file) :: 32 word)))"
proof (cases "failbit infile")
  case True
  then show ?thesis
    by (simp add: decompress_file_def assms seekg_end_def tellg_def seekg_back_def
        decode_data_def Let_def)
next
  case False
  note c = read_huffman_dictionary_content [OF assms]
  have "seekg_back (seekg_end infile)
      = \<lparr>content = file, pos = length file - 1, failbit = False\<rparr>"
    using False c by (cases infile) (simp add: seekg_end_def seekg_back_def)
  moreover have "tellg (seekg_end infile) = int (length file)"
    using False c by (simp add: seekg_end_def tellg_def)
  ultimately show ?thesis
    using False by (simp add: decompress_file_def assms Let_def)
qed

section \<open>Runs on concrete inputs\<close>

lemma bool_cases_eq: "f True = v \<Longrightarrow> f False = v \<Longrightarrow> f (b::bool) = v"
  by (cases b) simp_all

lemma push_leaves_aab:
  "push_leaves (fill_frequency [97, 97, 98] (init_frequency (\<lambda>i. 0))) [0..<256] []
     = [Node 97 2 None None, Node 98 1 None None]"
  by code_simp

lemma build_huffman_tree_aab:
  "build_huffman_tree tc (fill_frequency [97, 97, 98] (init_frequency (\<lambda>i. 0)))
     = Inr (Node 43 3 (Some (Node 98 1 None None)) (Some (Node 97 2 None None)))"
  unfolding build_huffman_tree_def push_leaves_aab
  by (simp add: merge_loop.simps pq_top_def pq_pop_def chosen_pair_second chosen_single
      add_int_def pq_push_def)

lemma write_compressed_file_aab:
  "(let dict = generate_dictionary
                 (Node 43 3 (Some (Node 98 1 None None)) (Some (Node 97 2 None None)))
                 [] (\<lambda>i. [])
    in write_compressed_file signed_char dict (encode_text [97, 97, 98] dict))
   = Inr [2, 97, 1, 49, 98, 1, 48, 192]"
  by (rule bool_cases_eq [where b = signed_char]; code_simp)

lemma compress_file_aab:
  "compress_file tc signed_char [97, 97, 98] = Inr [2, 97, 1, 49, 98, 1, 48, 192]"
  unfolding compress_file_def Let_def build_huffman_tree_aab sum.case
  using write_compressed_file_aab [of signed_char] unfolding Let_def .

lemma decompress_file_aab:
  "decompress_file signed_char [2, 97, 1, 49, 98, 1, 48, 192]
     = Inr [97, 97, 98, 98, 98, 98, 98, 98]"
  by (rule bool_cases_eq [where b = signed_char]; code_simp)

lemma read_huffman_dictionary_aab:
  "read_huffman_dictionary True (open_file [2, 97, 1, 49, 98, 1, 48, 192]) (Node 43 0 None None)
     = Inr (Node 43 0 (Some (Node 98 0 None None)) (Some (Node 97 0 None None)),
            \<lparr>content = [2, 97, 1, 49, 98, 1, 48, 192], pos = 7, failbit = False\<rparr>)"
  by code_simp

lemma decode_data_aab:
  "decode_data (open_file [192])
     (Node 43 0 (Some (Node 98 0 None None)) (Some (Node 97 0 None None))) 8
     = Inr [97, 97, 98, 98, 98, 98, 98, 98]"
  by code_simp

lemma generate_dictionary_aab: "generate_dictionary
        (Node 43 3 (Some (Node 98 1 None None)) (Some (Node 97 2 None None))) [] (\<lambda>i. []) = (\<lambda>i. [])(98 := [48], 97 := [49])"
  by simp

lemma push_leaves_aaaa:
  "push_leaves (fill_frequency [97, 97, 97, 97] (init_frequency (\<lambda>i. 0))) [0..<256] []
     = [Node 97 4 None None]"
  by code_simp

lemma build_huffman_tree_aaaa:
  "build_huffman_tree tc (fill_frequency [97, 97, 97, 97] (init_frequency (\<lambda>i. 0)))
     = Inr (Node 97 4 None None)"
  unfolding build_huffman_tree_def push_leaves_aaaa
  by (simp add: merge_loop.simps pq_top_single)

lemma write_compressed_file_aaaa:
  "(let dict = generate_dictionary (Node 97 4 None None) [] (\<lambda>i. [])
    in write_compressed_file signed_char dict (encode_text [97, 97, 97, 97] dict))
   = Inr [0]"
  by (rule bool_cases_eq [where b = signed_char]; code_simp)

lemma compress_file_aaaa:
  "compress_file tc signed_char [97, 97, 97, 97] = Inr [0]"
  unfolding compress_file_def Let_def build_huffman_tree_aaaa sum.case
  using write_compressed_file_aaaa [of signed_char] unfolding Let_def .

lemma decompress_file_single_zero:
  "decompress_file signed_char [0] = Inl NullDereference"
  by (rule bool_cases_eq [where b = signed_char]; code_simp)

lemma dict_entries_two:
  "dict_entries ((\<lambda>i. [])(98 := [48], 97 := [49])) [0..<256] = [(97, [49]), (98, [48])]"
  by code_simp

text \<open>
  The header (a, "0"), (b, "01"): the code of \<open>a\<close> is a prefix of the code of \<open>b\<close>.
\<close>

lemma decode_data_prefix_conflict:
  "decode_data (open_file [85])
     (insert_entries [(97, [48]), (98, [48, 49])] (Node 43 0 None None)) 9 = Inr [98, 98, 98, 98]"
  by code_simp

section \<open>Round trip\<close>

text \<open>
  Claim C1. The round trip fails on the input "aab": the byte \<open>b\<close> occurs once and gets
  the code "0", \<open>a\<close> occurs twice and gets "1", whatever the queue does with ties (there
  is none), and the file is the count 2, the entries (a, 1, "1") and (b, 1, "0") and the
  payload byte 11000000. \<^verbatim>\<open>decompress_file\<close> seeks to the last byte of the file,
  takes the file size 8 for the number of bits, and decodes the three bits of the text
  and the five bits of padding: "aabbbbbb", not "aab".
\<close>

theorem round_trip_aab:
  "compress_file tc signed_char [97, 97, 98] = Inr [2, 97, 1, 49, 98, 1, 48, 192]
   \<and> decompress_file signed_char [2, 97, 1, 49, 98, 1, 48, 192]
       = Inr [97, 97, 98, 98, 98, 98, 98, 98]"
  by (rule conjI [OF compress_file_aab decompress_file_aab])

section \<open>What the decoder reads\<close>

text \<open>
  Claim C2. Whenever \<^verbatim>\<open>read_huffman_dictionary\<close> returns with the stream in a good
  state, \<^verbatim>\<open>decompress_file\<close> calls \<^verbatim>\<open>decode_data\<close> with the stream one byte before
  the end of the file and with the size of the file (in bytes, cut to 32 bits) as
  \<open>encoded_length\<close>; the result is therefore the one \<^verbatim>\<open>decode_data\<close> gives on a stream
  that holds the last byte of the file and nothing else. When the reader has left the
  stream failed, no seek takes place, \<^verbatim>\<open>decode_data\<close> reads nothing, and the output is
  empty. In both cases at most the final byte of the file is decoded.
\<close>

theorem decompress_file_last_byte:
  assumes "read_huffman_dictionary signed_char (open_file file) (Node 43 0 None None)
             = Inr (root, infile)"
  shows "decompress_file signed_char file =
           (if failbit infile then Inr []
            else decode_data \<lparr>content = file, pos = length file - 1, failbit = False\<rparr>
                   root (sint (word_of_nat (length file) :: 32 word)))
         \<and> decode_data \<lparr>content = file, pos = length file - 1, failbit = False\<rparr> root
              (sint (word_of_nat (length file) :: 32 word))
           = decode_data (open_file [last file]) root
              (sint (word_of_nat (length file) :: 32 word))"
proof -
  note c = read_huffman_dictionary_content [OF assms]
  from decompress_file_after_header [OF assms] decode_data_last [OF c(2)]
  show ?thesis by simp
qed

theorem decompress_file_last_byte_witness:
  "read_huffman_dictionary True (open_file [2, 97, 1, 49, 98, 1, 48, 192]) (Node 43 0 None None)
     = Inr (Node 43 0 (Some (Node 98 0 None None)) (Some (Node 97 0 None None)),
            \<lparr>content = [2, 97, 1, 49, 98, 1, 48, 192], pos = 7, failbit = False\<rparr>)
   \<and> decompress_file True [2, 97, 1, 49, 98, 1, 48, 192]
       = decode_data (open_file [192])
           (Node 43 0 (Some (Node 98 0 None None)) (Some (Node 97 0 None None))) 8
   \<and> decode_data (open_file [192])
         (Node 43 0 (Some (Node 98 0 None None)) (Some (Node 97 0 None None))) 8
       = Inr [97, 97, 98, 98, 98, 98, 98, 98]"
  using decompress_file_last_byte [OF read_huffman_dictionary_aab]
    read_huffman_dictionary_aab decode_data_aab
  by simp

section \<open>Empty input\<close>

text \<open>
  Claim C3. For the empty input the frequency table is all zero, as the claim says; but
  \<^verbatim>\<open>compress_file\<close> does not stop there: \<^verbatim>\<open>build_huffman_tree\<close> pushes nothing and
  returns \<^verbatim>\<open>pq.top()\<close> of the empty queue, which is undefined behaviour.
\<close>

theorem compress_file_empty:
  "fill_frequency [] (init_frequency table) = (\<lambda>i. 0)
   \<and> compress_file tc signed_char [] = Inl EmptyQueue"
  by (simp add: compress_file_def build_huffman_tree_def init_frequency_def
      push_leaves_zero merge_loop.simps pq_top_def)

section \<open>Input of one distinct byte\<close>

text \<open>
  Claim C4. On the input "aaaa" the tree is the single leaf \<open>a\<close>, which
  \<^verbatim>\<open>generate_dictionary\<close> gives the empty code: the dictionary has no non-empty entry, the
  file is the one byte 0 (a count of zero, no entry, no payload), and
  \<^verbatim>\<open>decompress_file\<close> on that file steps from the childless root to a null pointer and
  dereferences it.
\<close>

theorem single_symbol_aaaa:
  "generate_dictionary (Node 97 4 None None) [] (\<lambda>i. []) 97 = []
   \<and> compress_file tc signed_char [97, 97, 97, 97] = Inr [0]
   \<and> decompress_file signed_char [0] = Inl NullDereference"
  using compress_file_aaaa decompress_file_single_zero by simp

section \<open>Malformed headers\<close>

text \<open>
  Claim C5, as the code has it. \<^verbatim>\<open>read_huffman_dictionary\<close> validates nothing and the
  program has no malformed-header error. When every entry that the count byte declares
  is present in the file (the count and the code lengths being values a \<^verbatim>\<open>char\<close>
  holds), the header is accepted whatever its codes are, also when one code is a prefix
  of another: the codes are inserted in the order of the entries, and
  \<^verbatim>\<open>decompress_file\<close> goes on to decode the last byte of the file with the tree that
  results.
\<close>

theorem decompress_file_unvalidated_header:
  assumes "length es \<le> char_max signed_char"
    and "\<forall>e \<in> set es. length (snd e) \<le> char_max signed_char"
    and "file = of_nat (length es) # concat (map entry_bytes es) @ payload"
  shows "decompress_file signed_char file
           = decode_data (open_file [last file]) (insert_entries es (Node 43 0 None None))
               (sint (word_of_nat (length file) :: 32 word))"
proof -
  from read_huffman_dictionary_ok [OF assms(1,2), of payload "Node 43 0 None None"]
  have r: "read_huffman_dictionary signed_char (open_file file) (Node 43 0 None None)
      = Inr (insert_entries es (Node 43 0 None None),
             \<lparr>content = file, pos = Suc (length (concat (map entry_bytes es))),
              failbit = False\<rparr>)"
    by (simp add: assms(3))
  from read_huffman_dictionary_content(2) [OF r] have "file \<noteq> []" .
  from decompress_file_after_header [OF r] decode_data_last [OF this]
  show ?thesis by simp
qed

theorem decompress_file_unvalidated_header_witness:
  "length [(97 :: byte, [48 :: byte]), (98, [48, 49])] \<le> char_max True
   \<and> length [48 :: byte] \<le> char_max True \<and> length [48 :: byte, 49] \<le> char_max True
   \<and> decompress_file True [2, 97, 1, 48, 98, 2, 48, 49, 85] = Inr [98, 98, 98, 98]"
proof -
  let ?es = "[(97 :: byte, [48 :: byte]), (98, [48, 49])]"
  have a: "length ?es \<le> char_max True" by (simp add: char_max_def)
  have b: "\<forall>e \<in> set ?es. length (snd e) \<le> char_max True" by (simp add: char_max_def)
  have f: "[2, 97, 1, 48, 98, 2, 48, 49, 85]
      = of_nat (length ?es) # concat (map entry_bytes ?es) @ [85]"
    by (simp add: entry_bytes_def)
  from decompress_file_unvalidated_header [OF a b f] decode_data_prefix_conflict a b
  show ?thesis by simp
qed

text \<open>
  The same file, and a file whose header declares two entries and breaks off inside the
  code of the second: \<^verbatim>\<open>decompress_file\<close> returns normally on both, with the output
  "bbbb" and the empty output.
\<close>

theorem malformed_header_accepted:
  "decompress_file True [2, 97, 1, 48, 98, 2, 48, 49, 85] = Inr [98, 98, 98, 98]
   \<and> decompress_file False [2, 97, 1, 48, 98, 2, 48, 49, 85] = Inr [98, 98, 98, 98]
   \<and> decompress_file True [2, 97, 1, 48, 98, 5, 48] = Inr []
   \<and> decompress_file False [2, 97, 1, 48, 98, 5, 48] = Inr []"
  by code_simp

section \<open>Symbol count\<close>

text \<open>
  Claim C6. The input made of the 128 byte values 0 to 127, once each, on a platform
  whose \<^verbatim>\<open>char\<close> is signed: \<^verbatim>\<open>compress_file\<close> succeeds and writes the count 128 as
  the byte \<open>0x80\<close>, followed by 128 entries; \<^verbatim>\<open>read_huffman_dictionary\<close> reads that
  byte into a \<^verbatim>\<open>char\<close>, where it is -128, so that the loop
  \<^verbatim>\<open>for (int i = 0; i < dict_size; ++i)\<close> does not run: no entry is read, the tree
  stays the bare root, and the stream stays at position 1.
\<close>

theorem symbol_count_signed_char:
  "\<exists>file es payload.
     compress_file tc True (map of_nat [0..<128]) = Inr file
     \<and> file = 128 # concat (map entry_bytes es) @ payload
     \<and> length es = 128
     \<and> read_huffman_dictionary True (open_file file) root
         = Inr (root, \<lparr>content = file, pos = 1, failbit = False\<rparr>)"
proof -
  let ?ds = "map of_nat [0..<128] :: byte list"
  have c: "card (set ?ds) = 128" by (rule card_first_bytes) simp
  have "length ?ds < 2 ^ 31" by simp
  moreover have "2 \<le> card (set ?ds)" unfolding c by simp
  moreover have "card (set ?ds) \<le> Suc (char_max True)"
    unfolding c by (simp add: char_max_def)
  ultimately obtain dict where
    f: "compress_file tc True ?ds
          = Inr (of_nat (card (set ?ds))
                   # concat (map entry_bytes (dict_entries dict [0..<256]))
                   @ pack_bits (encode_text ?ds dict) 0 0)"
    and n: "length (dict_entries dict [0..<256]) = card (set ?ds)"
    using compress_file_count [of ?ds True tc] by blast
  let ?es = "dict_entries dict [0..<256]"
  let ?payload = "pack_bits (encode_text ?ds dict) 0 0"
  let ?file = "128 # concat (map entry_bytes ?es) @ ?payload"
  have r: "read_huffman_dictionary True (open_file ?file) root
         = Inr (root, \<lparr>content = ?file, pos = 1, failbit = False\<rparr>)"
    by (simp add: read_huffman_dictionary_def read_char_def open_file_def char_value_def)
  have "compress_file tc True ?ds = Inr ?file" using f c by simp
  moreover have "length ?es = 128" using n c by simp
  ultimately show ?thesis using r by blast
qed

section \<open>Prefix-free codes\<close>

text \<open>
  Claim C7. The dictionary that \<^verbatim>\<open>generate_dictionary\<close> fills from the tree of an
  input (starting from the empty strings of a fresh array) is prefix-free: a non-empty
  code of one byte value is not a prefix of the code of another byte value. This holds
  of every tree that \<^verbatim>\<open>build_huffman_tree\<close> returns, whatever the priority queue does
  with equal frequencies; and it returns a tree for every non-empty input of fewer than
  \<open>2 ^ 31\<close> bytes.
\<close>

theorem generate_dictionary_prefix_free_codes:
  "(\<forall>t a b. build_huffman_tree tc (fill_frequency dataset (init_frequency table)) = Inr t
      \<longrightarrow> a \<noteq> b \<longrightarrow> generate_dictionary t [] (\<lambda>i. []) a \<noteq> []
      \<longrightarrow> \<not> prefix (generate_dictionary t [] (\<lambda>i. []) a)
                   (generate_dictionary t [] (\<lambda>i. []) b))
   \<and> (dataset \<noteq> [] \<longrightarrow> length dataset < 2 ^ 31
      \<longrightarrow> (\<exists>t. build_huffman_tree tc (fill_frequency dataset (init_frequency table)) = Inr t))"
  using generate_dictionary_prefix_free build_huffman_tree_ok by blast

theorem generate_dictionary_prefix_free_codes_witness:
  "build_huffman_tree first_least_choice (fill_frequency [97, 97, 98] (init_frequency (\<lambda>i. 0)))
     = Inr (Node 43 3 (Some (Node 98 1 None None)) (Some (Node 97 2 None None)))
   \<and> (97 :: byte) \<noteq> 98
   \<and> generate_dictionary
        (Node 43 3 (Some (Node 98 1 None None)) (Some (Node 97 2 None None))) [] (\<lambda>i. []) 97
       = [49]
   \<and> generate_dictionary
        (Node 43 3 (Some (Node 98 1 None None)) (Some (Node 97 2 None None))) [] (\<lambda>i. []) 98
       = [48]
   \<and> \<not> prefix [49 :: byte] [48]
   \<and> [97, 97, 98 :: byte] \<noteq> [] \<and> length [97, 97, 98 :: byte] < 2 ^ 31"
proof -
  let ?t = "Node 43 3 (Some (Node 98 1 None None)) (Some (Node 97 2 None None))"
  have a: "generate_dictionary ?t [] (\<lambda>i. []) 97 = [49]" by simp
  have b: "generate_dictionary ?t [] (\<lambda>i. []) 98 = [48]" by simp
  have n: "(97 :: byte) \<noteq> 98" by simp
  have ne: "generate_dictionary ?t [] (\<lambda>i. []) 97 \<noteq> []" by (simp only: a) simp
  from generate_dictionary_prefix_free_codes
         [of first_least_choice "[97, 97, 98]" "\<lambda>i. 0"]
  have "\<not> prefix (generate_dictionary ?t [] (\<lambda>i. []) 97) (generate_dictionary ?t [] (\<lambda>i. []) 98)"
    using build_huffman_tree_aab [of first_least_choice] n ne by blast
  then have "\<not> prefix [49 :: byte] [48]" unfolding a b .
  with build_huffman_tree_aab a b n show ?thesis by simp
qed

section \<open>Payload bits\<close>

text \<open>
  Claim C8. The encoded text is the concatenation of the codes of the input bytes, in
  input order. The packer turns it into bytes most significant bit first: read bit 7
  to bit 0, byte after byte, the payload is the encoded text (a bit is 1 where the
  character is \<^verbatim>\<open>'1'\<close>) followed by zero bits up to the next multiple of 8. So the
  first bit of the text is bit 7 of the first payload byte, and the unused low bits of
  the last byte are zero.
\<close>

theorem pack_bits_msb_first:
  "encode_text text dict = concat (map dict text)
   \<and> concat (map msb_first (pack_bits (encode_text text dict) 0 0)) =
       map (\<lambda>b. b = 49) (concat (map dict text))
         @ replicate (padding (length (concat (map dict text)))) False"
  using pack_bits_bits [of 0 0 "encode_text text dict"]
  by (simp add: encode_text_concat)

section \<open>Shape of the tree\<close>

text \<open>
  Claim C9. Every node of the tree that \<^verbatim>\<open>build_huffman_tree\<close> returns has either no
  child or exactly two, never one, and the frequency of a node with children is the sum
  of the frequencies of its two children. This holds for every frequency table and
  every way the priority queue breaks ties.
\<close>

theorem build_huffman_tree_two_or_none:
  "build_huffman_tree tc table = Inr t \<Longrightarrow> two_or_none t"
  by (erule build_huffman_tree_invariant) simp_all

theorem build_huffman_tree_two_or_none_witness:
  "build_huffman_tree first_least_choice (fill_frequency [97, 97, 98] (init_frequency (\<lambda>i. 0)))
     = Inr (Node 43 3 (Some (Node 98 1 None None)) (Some (Node 97 2 None None)))
   \<and> two_or_none (Node 43 3 (Some (Node 98 1 None None)) (Some (Node 97 2 None None)))"
  by (rule conjI [OF build_huffman_tree_aab
        build_huffman_tree_two_or_none [OF build_huffman_tree_aab]])

section \<open>Dictionary format\<close>

text \<open>
  Claim C10. When the \<^verbatim>\<open>char\<close> type can hold the number of entries and the length
  of every code, the header that \<^verbatim>\<open>write_compressed_file\<close> writes is the count byte
  followed, for every non-empty code in order of the byte value, by the symbol, the
  length of the code and the code itself, one byte \<^verbatim>\<open>'0'\<close> or \<^verbatim>\<open>'1'\<close> per code bit;
  \<^verbatim>\<open>read_huffman_dictionary\<close> reads exactly these entries back, stops at the first
  payload byte, and has inserted each code as written. Inserting a code makes the walk
  along it (left on \<^verbatim>\<open>'0'\<close>, right otherwise) end in a node with the entry's symbol.
\<close>

theorem dictionary_text_format:
  assumes "\<forall>c. length (dict c) \<le> char_max signed_char"
    and "length (dict_entries dict [0..<256]) \<le> char_max signed_char"
    and "header = dict_size_byte dict # concat (map entry_bytes (dict_entries dict [0..<256]))"
  shows "write_compressed_file signed_char dict encoded_text
           = Inr (header @ pack_bits encoded_text 0 0)
         \<and> read_huffman_dictionary signed_char
             (open_file (header @ pack_bits encoded_text 0 0)) root
           = Inr (insert_entries (dict_entries dict [0..<256]) root,
                  \<lparr>content = header @ pack_bits encoded_text 0 0, pos = length header,
                   failbit = False\<rparr>)
         \<and> (\<exists>n. descend (insert_code code ch root) code = Some n \<and> character n = ch)"
proof -
  let ?es = "dict_entries dict [0..<256]"
  have w: "write_entries signed_char dict [0..<256] = Inr (concat (map entry_bytes ?es))"
    by (rule write_entries_ok) (simp add: assms(1))
  have l: "\<forall>e \<in> set ?es. length (snd e) \<le> char_max signed_char"
    using assms(1) by (auto simp: dict_entries_def)
  from read_huffman_dictionary_ok [OF assms(2) l, of "pack_bits encoded_text 0 0" root]
  show ?thesis
    by (simp add: write_compressed_file_def w assms(3) dict_size_byte_entries
        descend_insert_code)
qed

theorem dictionary_text_format_witness:
  "(\<forall>c. length (((\<lambda>i. [])(98 := [48], 97 := [49 :: byte])) (c :: byte)) \<le> char_max True)
   \<and> length (dict_entries ((\<lambda>i. [])(98 := [48], 97 := [49])) [0..<256]) \<le> char_max True
   \<and> write_compressed_file True ((\<lambda>i. [])(98 := [48], 97 := [49])) [49, 49, 48]
       = Inr [2, 97, 1, 49, 98, 1, 48, 192]
   \<and> read_huffman_dictionary True (open_file [2, 97, 1, 49, 98, 1, 48, 192]) (Node 43 0 None None)
       = Inr (Node 43 0 (Some (Node 98 0 None None)) (Some (Node 97 0 None None)),
              \<lparr>content = [2, 97, 1, 49, 98, 1, 48, 192], pos = 7, failbit = False\<rparr>)"
proof -
  let ?dict = "(\<lambda>i. [])(98 := [48], 97 := [49 :: byte]) :: byte \<Rightarrow> cstring"
  have a: "\<forall>c. length (?dict c) \<le> char_max True" by (simp add: char_max_def)
  have b: "length (dict_entries ?dict [0..<256]) \<le> char_max True"
    by (simp add: dict_entries_two char_max_def)
  have p: "pack_bits [49, 49, 48] 0 0 = [192]" by (simp add: Let_def)
  from dictionary_text_format [OF a b refl, of "[49, 49, 48]" "Node 43 0 None None"] a b
  show ?thesis
    by (simp add: dict_size_byte_entries dict_entries_two entry_bytes_def p insert_entries_def)
qed

end
